theory Spec2Isabelle
  imports Main "HOL-Library.Word"
begin

unbundle bit_operations_syntax

section \<open>Strings and paths\<close>

text \<open>
  Python strings are modelled as \<^typ>\<open>string\<close> (lists of characters). The helpers below
  are the string methods the sources call: \<^verbatim>\<open>s.startswith(p)\<close>, \<^verbatim>\<open>s.endswith(p)\<close>,
  \<^verbatim>\<open>p in s\<close>, \<^verbatim>\<open>s.lower()\<close> (on ASCII letters), \<^verbatim>\<open>s.strip()\<close>, \<^verbatim>\<open>s.split(sep)\<close> and
  \<^verbatim>\<open>s.replace(old, new)\<close>, and of \<^verbatim>\<open>posixpath\<close>: \<^verbatim>\<open>basename\<close> and \<^verbatim>\<open>join\<close>.
\<close>

definition startswith :: "string \<Rightarrow> string \<Rightarrow> bool" where
  "startswith s p = (take (length p) s = p)"

definition endswith :: "string \<Rightarrow> string \<Rightarrow> bool" where
  "endswith s p = (length p \<le> length s \<and> drop (length s - length p) s = p)"

text \<open>\<^verbatim>\<open>p in s\<close>: \<open>p\<close> occurs in \<open>s\<close> as a contiguous substring.\<close>

fun str_in :: "string \<Rightarrow> string \<Rightarrow> bool" where
  "str_in p [] = (p = [])"
| "str_in p (c # cs) = (startswith (c # cs) p \<or> str_in p cs)"

definition lower_char :: "char \<Rightarrow> char" where
  "lower_char c =
     (if (65::nat) \<le> of_char c \<and> of_char c \<le> (90::nat) then char_of (of_char c + (32::nat)) else c)"

definition lower :: "string \<Rightarrow> string" where
  "lower s = map lower_char s"

text \<open>
The ASCII characters \<^verbatim>\<open>str.strip()\<close> removes, which are also those the pattern
\<^verbatim>\<open>\s\<close> matches. Beyond ASCII, Python counts further characters as white space (U+0085
and U+00A0 among them); the model follows the source on ASCII text only.
\<close>

definition is_space :: "char \<Rightarrow> bool" where
  "is_space c = ((of_char c :: nat) \<in> {9, 10, 11, 12, 13, 28, 29, 30, 31, 32})"

definition strip :: "string \<Rightarrow> string" where
  "strip s = rev (dropWhile is_space (rev (dropWhile is_space s)))"

text \<open>
\<^verbatim>\<open>s.split(sep)\<close> for a separator of one character: the pieces between the separators,
empty pieces included.
\<close>

fun split_on :: "char \<Rightarrow> string \<Rightarrow> string list" where
  "split_on sep [] = [[]]"
| "split_on sep (c # cs) =
     (if c = sep then [] # split_on sep cs
      else (case split_on sep cs of w # ws \<Rightarrow> (c # w) # ws | [] \<Rightarrow> [[c]]))"

text \<open>
\<^verbatim>\<open>s.replace(old, new)\<close>: the occurrences of \<open>old\<close> are replaced from the left, without
overlap; an empty \<open>old\<close> matches before every character and at the end.
\<close>

function str_replace :: "string \<Rightarrow> string \<Rightarrow> string \<Rightarrow> string" where
  "str_replace old new s =
     (if old = [] then (case s of [] \<Rightarrow> new | c # cs \<Rightarrow> new @ c # str_replace old new cs)
      else if s = [] then []
      else if startswith s old then new @ str_replace old new (drop (length old) s)
      else hd s # str_replace old new (tl s))"
  by pat_completeness auto

termination
  by (relation "measure (\<lambda>(old, new, s). length s)") auto

text \<open>
\<^verbatim>\<open>sep.join(xs)\<close>.
\<close>

fun str_join :: "string \<Rightarrow> string list \<Rightarrow> string" where
  "str_join sep [] = []"
| "str_join sep [x] = x"
| "str_join sep (x # y # ys) = x @ sep @ str_join sep (y # ys)"

text \<open>\<^verbatim>\<open>posixpath.basename\<close>: everything after the last slash.\<close>

definition os_path_basename :: "string \<Rightarrow> string" where
  "os_path_basename p = rev (takeWhile (\<lambda>c. c \<noteq> CHR ''/'') (rev p))"

text \<open>
  \<^verbatim>\<open>posixpath.join(a, b)\<close>: an absolute \<open>b\<close> replaces \<open>a\<close>; otherwise \<open>b\<close> is appended,
  after a slash unless \<open>a\<close> is empty or already ends with one.
\<close>

definition os_path_join :: "string \<Rightarrow> string \<Rightarrow> string" where
  "os_path_join a b =
     (if startswith b ''/'' then b
      else if a = [] \<or> endswith a ''/'' then a @ b
      else a @ ''/'' @ b)"

section \<open>Bundling policy (tools/exclude\_libs.py)\<close>

definition GENERATED_EXCLUDE_LIST :: "string list" where
  "GENERATED_EXCLUDE_LIST =
    [''ld-linux.so.2'', ''ld-linux-x86-64.so.2'', ''libanl.so.1'', ''libasound.so.2'',
     ''libBrokenLocale.so.1'', ''libcidn.so.1'', ''libcom_err.so.2'', ''libc.so.6'',
     ''libdl.so.2'', ''libdrm.so.2'', ''libEGL.so.1'', ''libexpat.so.1'',
     ''libfontconfig.so.1'', ''libfreetype.so.6'', ''libfribidi.so.0'', ''libgbm.so.1'',
     ''libgcc_s.so.1'', ''libgdk_pixbuf-2.0.so.0'', ''libgio-2.0.so.0'', ''libglapi.so.0'',
     ''libGLdispatch.so.0'', ''libglib-2.0.so.0'', ''libGL.so.1'', ''libGLX.so.0'',
     ''libgobject-2.0.so.0'', ''libgpg-error.so.0'', ''libharfbuzz.so.0'', ''libICE.so.6'',
     ''libjack.so.0'', ''libm.so.6'', ''libmvec.so.1'', ''libnss_compat.so.2'',
     ''libnss_db.so.2'', ''libnss_dns.so.2'', ''libnss_files.so.2'', ''libnss_hesiod.so.2'',
     ''libnss_nisplus.so.2'', ''libnss_nis.so.2'', ''libp11-kit.so.0'', ''libpango-1.0.so.0'',
     ''libpangocairo-1.0.so.0'', ''libpangoft2-1.0.so.0'', ''libpthread.so.0'',
     ''libresolv.so.2'', ''librt.so.1'', ''libSM.so.6'', ''libstdc++.so.6'', ''libthai.so.0'',
     ''libthread_db.so.1'', ''libusb-1.0.so.0'', ''libutil.so.1'', ''libuuid.so.1'',
     ''libX11.so.6'', ''libxcb-dri2.so.0'', ''libxcb-dri3.so.0'', ''libxcb.so.1'',
     ''libz.so.1'']"

definition NEVER_EXCLUDE_LIST :: "string list" where
  "NEVER_EXCLUDE_LIST =
    [''libQt5Concurrent.so'', ''libQt5QuickControls2.so'', ''libQt5Svg.so'',
     ''libQt5Widgets.so'', ''libQt5Gui.so'', ''libQt5Core.so'', ''libQt5Network.so'',
     ''libQt5PrintSupport.so'', ''libQt5Sql.so'', ''libQt5Test.so'', ''libQt5XcbQpa.so'',
     ''libQt5DBus.so'', ''libQt5XcbQpa.so.5'', ''libQt5DBus.so.5'', ''libQt6XcbQpa.so'',
     ''libQt6DBus.so'', ''libQt6XcbQpa.so.6'', ''libQt6DBus.so.6'',
     ''libQt5QuickControls2.so'', ''libQt5QuickTemplates2.so'', ''libQt5QuickControls2.so.5'',
     ''libQt5QuickTemplates2.so.5'', ''libQt6QuickControls2.so'', ''libQt6QuickTemplates2.so'',
     ''libQt6QuickControls2.so.6'', ''libQt6QuickTemplates2.so.6'',
     ''libxcb-render-util.so'', ''libxcb-image.so'', ''libxcb-icccm.so'', ''libxcb-shm.so'',
     ''libxcb-keysyms.so'', ''libxcb-randr.so'', ''libxcb-render.so'', ''libxcb-shape.so'',
     ''libxcb-sync.so'', ''libxcb-xfixes.so'', ''libxcb-xkb.so'']"

definition webengine_required_libs :: "string list" where
  "webengine_required_libs =
    [''libsoftokn3.so'', ''libfreebl3.so'', ''libnss3.so'', ''libnssutil3.so'',
     ''libsmime3.so'', ''libssl3.so'', ''libsqlite3.so'']"

text \<open>
  The test both list loops of \<^verbatim>\<open>should_exclude_library\<close> apply to an entry:
  \<^verbatim>\<open>library_name == e or library_name.startswith(e + ".")\<close>.
\<close>

definition name_matches :: "string \<Rightarrow> string \<Rightarrow> bool" where
  "name_matches library_name e = (library_name = e \<or> startswith library_name (e @ ''.''))"

definition should_exclude_library :: "string \<Rightarrow> bool" where
  "should_exclude_library library_path =
     (let library_name = os_path_basename library_path in
      if list_ex (\<lambda>nss_lib. startswith library_name nss_lib) webengine_required_libs then False
      else if library_path = [] then True
      else if list_ex (name_matches library_name) NEVER_EXCLUDE_LIST then False
      else if list_ex (name_matches library_name) GENERATED_EXCLUDE_LIST then True
      else False)"

definition critical_qt_patterns :: "string list" where
  "critical_qt_patterns =
    [''libqt5xcbqpa'', ''libqt5dbus'', ''libqt6xcbqpa'', ''libqt6dbus'',
     ''libqt5quickcontrols2'', ''libqt5quicktemplates2'', ''libqt6quickcontrols2'',
     ''libqt6quicktemplates2'', ''libqt5webengine'', ''libqt5webenginecore'',
     ''libqt5webenginewidgets'', ''libqt6webengine'', ''libqt6webenginecore'',
     ''libqt6webenginewidgets'', ''libqt5test'', ''libqt6test'', ''libqt4test'']"

definition xcb_extension_patterns :: "string list" where
  "xcb_extension_patterns =
    [''libxcb-dpms'', ''libxcb-icccm'', ''libxcb-image'', ''libxcb-keysyms'',
     ''libxcb-present'', ''libxcb-randr'', ''libxcb-render'', ''libxcb-render-util'',
     ''libxcb-shape'', ''libxcb-shm'', ''libxcb-sync'', ''libxcb-util'', ''libxcb-xfixes'',
     ''libxcb-xinerama'', ''libxcb-xkb'', ''libxcb-xinput'']"

definition qt_quick_patterns :: "string list" where
  "qt_quick_patterns =
    [''libqt5quick'', ''libqt6quick'', ''libqt5qml'', ''libqt6qml'', ''libqt5declarative'',
     ''libqt6declarative'']"

definition should_bundle_library :: "string \<Rightarrow> bool \<Rightarrow> bool \<Rightarrow> bool" where
  "should_bundle_library library_path bundle_all_but_core_libs bundle_everything =
     (if bundle_everything then True
      else let library_name = os_path_basename library_path in
      if list_ex (\<lambda>nss_lib. startswith library_name nss_lib) webengine_required_libs then True
      else if bundle_all_but_core_libs then \<not> should_exclude_library library_path
      else if str_in ''libicu'' library_name then True
      else let library_name_lower = lower library_name in
      if str_in ''libqt'' library_name_lower then True
      else if list_ex (\<lambda>pattern. str_in pattern library_name_lower) critical_qt_patterns then True
      else if list_ex (\<lambda>pattern. str_in pattern library_name_lower) xcb_extension_patterns then True
      else if str_in ''libqgsttools'' library_name_lower then True
      else if list_ex (\<lambda>pattern. str_in pattern library_name_lower) qt_quick_patterns then True
      else if str_in ''boost'' library_name_lower then True
      else False)"

text \<open>
  The three bundling modes of the specification and the call each one stands for;
  \<^verbatim>\<open>bundle_everything\<close> is tested first, so it wins when both flags are set.
\<close>

datatype bundle_mode = Default | BundleAllButCore | BundleEverything

datatype decision = Bundle | Exclude

definition Decide :: "string \<Rightarrow> bundle_mode \<Rightarrow> decision" where
  "Decide library_path m =
     (if should_bundle_library library_path (m = BundleAllButCore) (m = BundleEverything)
      then Bundle else Exclude)"

text \<open>
  Two of the default-mode tests of \<^verbatim>\<open>should_bundle_library\<close>, named for the proofs:
  the framework prefix and the extension-library patterns.
\<close>

definition default_hit :: "string \<Rightarrow> bool" where
  "default_hit n = (str_in ''libqt'' (lower n)
      \<or> list_ex (\<lambda>pattern. str_in pattern (lower n)) xcb_extension_patterns)"

section \<open>GNU\_STACK patcher (tools/patch\_gnustack.py)\<close>

text \<open>
  A file is the list of its bytes. \<^verbatim>\<open>struct.unpack\<close> yields Python integers, which do not
  overflow, so header fields and offsets are natural numbers.
\<close>

type_synonym byte = "8 word"

datatype py_error = IndexError | StructError

datatype endian = Little | Big

definition ELF_MAGIC_BYTES :: "byte list" where
  "ELF_MAGIC_BYTES = [0x7F, 0x45, 0x4C, 0x46]"

definition ELF_CLASS_64 :: byte where "ELF_CLASS_64 = 2"
definition ELF_DATA_LSB :: byte where "ELF_DATA_LSB = 1"

definition PT_GNU_STACK :: nat where "PT_GNU_STACK = 0x6474E551"

definition PF_X :: nat where "PF_X = 0x1"
definition PF_W :: nat where "PF_W = 0x2"
definition PF_R :: nat where "PF_R = 0x4"

definition RWX_PERMISSIONS :: nat where "RWX_PERMISSIONS = PF_R OR PF_W OR PF_X"
definition RW_PERMISSIONS :: nat where "RW_PERMISSIONS = PF_R OR PF_W"

definition PH_FLAGS_OFFSET_64 :: nat where "PH_FLAGS_OFFSET_64 = 4"
definition PH_FLAGS_OFFSET_32 :: nat where "PH_FLAGS_OFFSET_32 = 24"

text \<open>The slice \<^verbatim>\<open>elf[a:b]\<close> for \<open>0 \<le> a \<le> b\<close>; it is shorter than \<open>b - a\<close> near the end.\<close>

definition slice :: "'a list \<Rightarrow> nat \<Rightarrow> nat \<Rightarrow> 'a list" where
  "slice xs a b = take (b - a) (drop a xs)"

fun le_value :: "byte list \<Rightarrow> nat" where
  "le_value [] = 0"
| "le_value (b # bs) = unat b + 256 * le_value bs"

fun le_bytes :: "nat \<Rightarrow> nat \<Rightarrow> byte list" where
  "le_bytes 0 v = []"
| "le_bytes (Suc n) v = of_nat (v mod 256) # le_bytes n (v div 256)"

text \<open>
  \<^verbatim>\<open>struct.unpack(endian + fmt, data)[0]\<close> for the unsigned formats \<^verbatim>\<open>H\<close>, \<^verbatim>\<open>I\<close>, \<^verbatim>\<open>Q\<close>
  of 2, 4 and 8 bytes: \<^verbatim>\<open>struct.error\<close> unless the data has exactly that size.
  \<^verbatim>\<open>struct.pack(endian + "I", v)\<close> for a value that fits.
\<close>

definition struct_unpack :: "endian \<Rightarrow> nat \<Rightarrow> byte list \<Rightarrow> py_error + nat" where
  "struct_unpack en sz bs =
     (if length bs \<noteq> sz then Inl StructError
      else Inr (le_value (if en = Little then bs else rev bs)))"

definition struct_pack :: "endian \<Rightarrow> nat \<Rightarrow> nat \<Rightarrow> byte list" where
  "struct_pack en sz v = (if en = Little then le_bytes sz v else rev (le_bytes sz v))"

text \<open>
  \<^verbatim>\<open>wf.seek(off); wf.write(bs)\<close> on a file opened \<^verbatim>\<open>r+b\<close>: the bytes from \<open>off\<close> on are
  overwritten; a write past the end extends the file (a gap is filled with zeros).
\<close>

definition file_write :: "byte list \<Rightarrow> nat \<Rightarrow> byte list \<Rightarrow> byte list" where
  "file_write f off bs =
     take off f @ replicate (off - length f) 0 @ bs @ drop (off + length bs) f"

text \<open>The local variables the header parse of \<^verbatim>\<open>fix_executable_stack\<close> sets.\<close>

record elf_header =
  is_64 :: bool
  endian :: endian
  e_phoff :: nat
  e_phnum :: nat
  e_phentsize :: nat

datatype message =
    Not_an_ELF_file
  | Found_GNU_STACK nat nat
  | Patched_RWX_to_RW
  | Already_not_executable_stack
  | GNU_STACK_segment_not_found

text \<open>What a run leaves behind: the bytes on disk, what it printed, the flag \<^verbatim>\<open>found\<close>.\<close>

record patch_state =
  disk :: "byte list"
  printed :: "message list"
  found :: bool

text \<open>
  The header parse, in the source's order: the magic test (a mismatch is the early
  return, \<open>None\<close>), \<^verbatim>\<open>elf[4]\<close> and \<^verbatim>\<open>elf[5]\<close> (IndexError on a file that ends before
  them), then the three unpacked fields.
\<close>

definition read_header :: "byte list \<Rightarrow> py_error + elf_header option" where
  "read_header elf =
     (if take 4 elf \<noteq> ELF_MAGIC_BYTES then Inr None
      else if length elf \<le> 4 then Inl IndexError
      else let is64 = (elf ! 4 = ELF_CLASS_64) in
      if length elf \<le> 5 then Inl IndexError
      else let en = (if elf ! 5 = ELF_DATA_LSB then Little else Big);
               e_phoff_offset = (if is64 then 32 else 28);
               e_phoff_size = (if is64 then 8 else 4) in
      case struct_unpack en e_phoff_size (slice elf e_phoff_offset (e_phoff_offset + e_phoff_size)) of
        Inl e \<Rightarrow> Inl e
      | Inr phoff \<Rightarrow>
      let e_phnum_offset = (if is64 then 56 else 44) in
      case struct_unpack en 2 (slice elf e_phnum_offset (e_phnum_offset + 2)) of
        Inl e \<Rightarrow> Inl e
      | Inr phnum \<Rightarrow>
      let e_phentsize_offset = (if is64 then 54 else 42) in
      case struct_unpack en 2 (slice elf e_phentsize_offset (e_phentsize_offset + 2)) of
        Inl e \<Rightarrow> Inl e
      | Inr phentsize \<Rightarrow>
          Inr (Some \<lparr>is_64 = is64, endian = en, e_phoff = phoff, e_phnum = phnum,
                     e_phentsize = phentsize\<rparr>))"

definition flags_off :: "elf_header \<Rightarrow> nat \<Rightarrow> nat" where
  "flags_off h i =
     e_phoff h + i * e_phentsize h + (if is_64 h then PH_FLAGS_OFFSET_64 else PH_FLAGS_OFFSET_32)"

text \<open>
  The loop over the program headers. \<open>elf\<close> is the snapshot read at the start: every
  read is from it, every write goes to the disk. An exception leaves the loop with the
  state reached so far.
\<close>

fun ph_loop :: "elf_header \<Rightarrow> byte list \<Rightarrow> nat list \<Rightarrow> patch_state \<Rightarrow> patch_state \<times> py_error option" where
  "ph_loop h elf [] st = (st, None)"
| "ph_loop h elf (i # is) st =
     (let phoff = e_phoff h + i * e_phentsize h in
      case struct_unpack (endian h) 4 (slice elf phoff (phoff + 4)) of
        Inl e \<Rightarrow> (st, Some e)
      | Inr p_type \<Rightarrow>
      case struct_unpack (endian h) 4 (slice elf (flags_off h i) (flags_off h i + 4)) of
        Inl e \<Rightarrow> (st, Some e)
      | Inr p_flags \<Rightarrow>
          if p_type = PT_GNU_STACK then
            let st1 = st\<lparr>printed := printed st @ [Found_GNU_STACK i p_flags]\<rparr> in
            if p_flags AND RWX_PERMISSIONS = RWX_PERMISSIONS then
              ph_loop h elf is
                (st1\<lparr>disk := file_write (disk st1) (flags_off h i)
                                (struct_pack (endian h) 4 RW_PERMISSIONS),
                     printed := printed st1 @ [Patched_RWX_to_RW],
                     found := True\<rparr>)
            else
              ph_loop h elf is
                (st1\<lparr>printed := printed st1 @ [Already_not_executable_stack], found := True\<rparr>)
          else ph_loop h elf is st)"

definition fix_executable_stack :: "byte list \<Rightarrow> patch_state \<times> py_error option" where
  "fix_executable_stack file0 =
     (let elf = file0; st0 = \<lparr>disk = file0, printed = [], found = False\<rparr> in
      case read_header elf of
        Inl e \<Rightarrow> (st0, Some e)
      | Inr None \<Rightarrow> (st0\<lparr>printed := [Not_an_ELF_file]\<rparr>, None)
      | Inr (Some h) \<Rightarrow>
          (case ph_loop h elf [0..<e_phnum h] st0 of
             (st, Some e) \<Rightarrow> (st, Some e)
           | (st, None) \<Rightarrow>
               if \<not> found st then (st\<lparr>printed := printed st @ [GNU_STACK_segment_not_found]\<rparr>, None)
               else (st, None)))"

text \<open>The bytes on disk after one application.\<close>

definition patched_file :: "byte list \<Rightarrow> byte list" where
  "patched_file f = disk (fst (fix_executable_stack f))"

subsection \<open>What one run does, stated on the bytes\<close>

text \<open>
Entry \<open>i\<close> can be read from a file of \<open>n\<close> bytes: its flags word, which lies behind
its type word, ends inside the file, so neither \<^verbatim>\<open>struct.unpack\<close> raises.
\<close>

definition readable :: "elf_header \<Rightarrow> nat \<Rightarrow> nat \<Rightarrow> bool" where
  "readable h n i = (flags_off h i + 4 \<le> n)"

text \<open>
The 32-bit value \<^verbatim>\<open>struct.unpack(endian + "I", elf[a:a+4])[0]\<close> when the slice is whole.
\<close>

definition word_at :: "endian \<Rightarrow> byte list \<Rightarrow> nat \<Rightarrow> nat" where
  "word_at en elf a = le_value (if en = Little then slice elf a (a + 4) else rev (slice elf a (a + 4)))"

text \<open>
Entry \<open>i\<close> is a GNU\_STACK entry whose flags have the read, write and execute bits all set:
the condition under which the loop body writes.
\<close>

definition rwx_entry :: "elf_header \<Rightarrow> byte list \<Rightarrow> nat \<Rightarrow> bool" where
  "rwx_entry h elf i =
     (word_at (endian h) elf (e_phoff h + i * e_phentsize h) = PT_GNU_STACK
      \<and> word_at (endian h) elf (flags_off h i) AND RWX_PERMISSIONS = RWX_PERMISSIONS)"

text \<open>
The effect of the loop body for entry \<open>i\<close> on the disk, decided on the snapshot \<open>elf\<close>.
\<close>

definition patch_step :: "elf_header \<Rightarrow> byte list \<Rightarrow> byte list \<Rightarrow> nat \<Rightarrow> byte list" where
  "patch_step h elf d i =
     (if rwx_entry h elf i
      then file_write d (flags_off h i) (struct_pack (endian h) 4 RW_PERMISSIONS) else d)"

text \<open>
The byte positions the run writes to: the flags words of the patched entries.
\<close>

definition patched_windows :: "elf_header \<Rightarrow> byte list \<Rightarrow> nat list \<Rightarrow> nat set" where
  "patched_windows h elf V =
     {k. \<exists>i \<in> set V. rwx_entry h elf i \<and> flags_off h i \<le> k \<and> k < flags_off h i + 4}"

text \<open>
The position of the least significant byte of the 4-byte word at \<open>a\<close>.
\<close>

definition low_pos :: "endian \<Rightarrow> nat \<Rightarrow> nat" where
  "low_pos en a = (if en = Little then a else a + 3)"

text \<open>
The entries the loop reaches: those before the first one that cannot be read.
\<close>

definition visited :: "elf_header \<Rightarrow> byte list \<Rightarrow> nat list" where
  "visited h elf = takeWhile (readable h (length elf)) [0..<e_phnum h]"

text \<open>
The size of the ELF header for the class of the file.
\<close>

definition hdr_size :: "elf_header \<Rightarrow> nat" where
  "hdr_size h = (if is_64 h then 64 else 52)"

text \<open>
A 64-bit little-endian file of 120 bytes: the ELF header and one program header, a
GNU\_STACK entry at offset 64 whose flags word starts with the byte \<open>fl\<close>.
\<close>

definition sample_elf64 :: "byte \<Rightarrow> byte list" where
  "sample_elf64 fl = [
      0x7F, 0x45, 0x4C, 0x46, 0x02, 0x01, 0x01, 0x00, 0x00, 0x00, 0x00, 0x00, 0x00, 0x00, 0x00, 0x00,
      0x02, 0x00, 0x3E, 0x00, 0x01, 0x00, 0x00, 0x00, 0x00, 0x00, 0x00, 0x00, 0x00, 0x00, 0x00, 0x00,
      0x40, 0x00, 0x00, 0x00, 0x00, 0x00, 0x00, 0x00, 0x00, 0x00, 0x00, 0x00, 0x00, 0x00, 0x00, 0x00,
      0x00, 0x00, 0x00, 0x00, 0x40, 0x00, 0x38, 0x00, 0x01, 0x00, 0x00, 0x00, 0x00, 0x00, 0x00, 0x00,
      0x51, 0xE5, 0x74, 0x64, fl, 0x00, 0x00, 0x00, 0x00, 0x00, 0x00, 0x00, 0x00, 0x00, 0x00, 0x00,
      0x00, 0x00, 0x00, 0x00, 0x00, 0x00, 0x00, 0x00, 0x00, 0x00, 0x00, 0x00, 0x00, 0x00, 0x00, 0x00,
      0x00, 0x00, 0x00, 0x00, 0x00, 0x00, 0x00, 0x00, 0x00, 0x00, 0x00, 0x00, 0x00, 0x00, 0x00, 0x00,
      0x00, 0x00, 0x00, 0x00, 0x00, 0x00, 0x00, 0x00]"

text \<open>
A 32-bit big-endian file of 79 bytes whose field \<^verbatim>\<open>e_phoff\<close> is 5: the program header
table starts inside the ELF header, so the flags word of entry 0 (bytes 29 to 32)
overlaps \<^verbatim>\<open>e_phoff\<close> itself (bytes 28 to 31).
\<close>

definition overlapping_file :: "byte list" where
  "overlapping_file = [
      0x7F, 0x45, 0x4C, 0x46, 0x01, 0x64, 0x74, 0xE5, 0x51, 0x00, 0x00, 0x00, 0x00, 0x00, 0x00, 0x00,
      0x00, 0x00, 0x00, 0x00, 0x00, 0x00, 0x00, 0x00, 0x00, 0x00, 0x00, 0x00, 0x00, 0x00, 0x00, 0x05,
      0x07, 0x00, 0x00, 0x00, 0x00, 0x00, 0x00, 0x00, 0x00, 0x00, 0x00, 0x2E, 0x00, 0x02, 0x64, 0x74,
      0xE5, 0x51, 0x00, 0x00, 0x00, 0x00, 0x00, 0x00, 0x00, 0x00, 0x00, 0x00, 0x00, 0x00, 0x00, 0x00,
      0x00, 0x00, 0x00, 0x00, 0x00, 0x00, 0x00, 0x00, 0x00, 0x07, 0x00, 0x00, 0x00, 0x00, 0x00]"

definition sample_header :: elf_header where
  "sample_header = \<lparr>is_64 = True, endian = Little, e_phoff = 64, e_phnum = 1, e_phentsize = 56\<rparr>"

text \<open>
The same file after one application, and after two.
\<close>

definition overlapping_once :: "byte list" where
  "overlapping_once = [
      0x7F, 0x45, 0x4C, 0x46, 0x01, 0x64, 0x74, 0xE5, 0x51, 0x00, 0x00, 0x00, 0x00, 0x00, 0x00, 0x00,
      0x00, 0x00, 0x00, 0x00, 0x00, 0x00, 0x00, 0x00, 0x00, 0x00, 0x00, 0x00, 0x00, 0x00, 0x00, 0x00,
      0x06, 0x00, 0x00, 0x00, 0x00, 0x00, 0x00, 0x00, 0x00, 0x00, 0x00, 0x2E, 0x00, 0x02, 0x64, 0x74,
      0xE5, 0x51, 0x00, 0x00, 0x00, 0x00, 0x00, 0x00, 0x00, 0x00, 0x00, 0x00, 0x00, 0x00, 0x00, 0x00,
      0x00, 0x00, 0x00, 0x00, 0x00, 0x00, 0x00, 0x00, 0x00, 0x07, 0x00, 0x00, 0x00, 0x00, 0x00]"

definition overlapping_twice :: "byte list" where
  "overlapping_twice = [
      0x7F, 0x45, 0x4C, 0x46, 0x01, 0x64, 0x74, 0xE5, 0x51, 0x00, 0x00, 0x00, 0x00, 0x00, 0x00, 0x00,
      0x00, 0x00, 0x00, 0x00, 0x00, 0x00, 0x00, 0x00, 0x00, 0x00, 0x00, 0x00, 0x00, 0x00, 0x00, 0x00,
      0x06, 0x00, 0x00, 0x00, 0x00, 0x00, 0x00, 0x00, 0x00, 0x00, 0x00, 0x2E, 0x00, 0x02, 0x64, 0x74,
      0xE5, 0x51, 0x00, 0x00, 0x00, 0x00, 0x00, 0x00, 0x00, 0x00, 0x00, 0x00, 0x00, 0x00, 0x00, 0x00,
      0x00, 0x00, 0x00, 0x00, 0x00, 0x00, 0x00, 0x00, 0x00, 0x06, 0x00, 0x00, 0x00, 0x00, 0x00]"

text \<open>
What the loop body prints for entry \<open>i\<close>.
\<close>

definition entry_report :: "elf_header \<Rightarrow> byte list \<Rightarrow> nat \<Rightarrow> message list" where
  "entry_report h elf i =
     (if word_at (endian h) elf (e_phoff h + i * e_phentsize h) = PT_GNU_STACK
      then [Found_GNU_STACK i (word_at (endian h) elf (flags_off h i)),
            if rwx_entry h elf i then Patched_RWX_to_RW else Already_not_executable_stack]
      else [])"

section \<open>AppDir layout (tools/appdir\_paths.py)\<close>

text \<open>
The attributes \<^verbatim>\<open>AppDirPaths.__init__\<close> sets.
\<close>

record appdir_paths =
  appdir_path :: string
  fhs_like_mode :: bool
  fhs_prefix :: string
  APPRUN :: string
  BIN_DIR :: string
  LIB_DIR :: string
  PLUGINS_DIR :: string
  QML_DIR :: string
  TRANSLATIONS_DIR :: string
  SHARE_DIR :: string
  DOC_DIR :: string
  LIBEXEC_DIR :: string
  RESOURCES_DIR :: string
  QT_CONF_PREFIX :: string
  QT_CONF_PLUGINS :: string
  QT_CONF_QML :: string
  QT_CONF_TRANSLATIONS :: string

text \<open>
\<^verbatim>\<open>posixpath.join\<close> with three and four arguments joins from the left.
\<close>

definition os_path_join3 :: "string \<Rightarrow> string \<Rightarrow> string \<Rightarrow> string" where
  "os_path_join3 a b c = os_path_join (os_path_join a b) c"

definition os_path_join4 :: "string \<Rightarrow> string \<Rightarrow> string \<Rightarrow> string \<Rightarrow> string" where
  "os_path_join4 a b c d = os_path_join (os_path_join (os_path_join a b) c) d"

text \<open>
The constructor: \<^verbatim>\<open>AppDirPaths(appdir_path, fhs_like_mode, fhs_prefix)\<close>.
\<close>

definition AppDirPaths :: "string \<Rightarrow> bool \<Rightarrow> string \<Rightarrow> appdir_paths" where
  "AppDirPaths appdir fhs prefix =
     (if fhs then
        \<lparr>appdir_path = appdir, fhs_like_mode = fhs, fhs_prefix = prefix,
         APPRUN = os_path_join appdir ''AppRun'',
         BIN_DIR = os_path_join3 appdir ''usr'' ''bin'',
         LIB_DIR = os_path_join3 appdir ''usr'' ''lib'',
         PLUGINS_DIR = os_path_join3 appdir ''usr'' ''plugins'',
         QML_DIR = os_path_join3 appdir ''usr'' ''qml'',
         TRANSLATIONS_DIR = os_path_join3 appdir ''usr'' ''translations'',
         SHARE_DIR = os_path_join3 appdir ''usr'' ''share'',
         DOC_DIR = os_path_join4 appdir ''usr'' ''share'' ''doc'',
         LIBEXEC_DIR = os_path_join3 appdir ''usr'' ''libexec'',
         RESOURCES_DIR = os_path_join3 appdir ''usr'' ''resources'',
         QT_CONF_PREFIX = ''../'', QT_CONF_PLUGINS = ''plugins'', QT_CONF_QML = ''qml'',
         QT_CONF_TRANSLATIONS = ''translations''\<rparr>
      else
        \<lparr>appdir_path = appdir, fhs_like_mode = fhs, fhs_prefix = prefix,
         APPRUN = os_path_join appdir ''AppRun'',
         BIN_DIR = appdir,
         LIB_DIR = os_path_join appdir ''lib'',
         PLUGINS_DIR = os_path_join appdir ''plugins'',
         QML_DIR = os_path_join appdir ''qml'',
         TRANSLATIONS_DIR = os_path_join appdir ''translations'',
         SHARE_DIR = os_path_join appdir ''share'',
         DOC_DIR = os_path_join appdir ''doc'',
         LIBEXEC_DIR = os_path_join appdir ''libexec'',
         RESOURCES_DIR = os_path_join appdir ''resources'',
         QT_CONF_PREFIX = ''./'', QT_CONF_PLUGINS = ''plugins'', QT_CONF_QML = ''qml'',
         QT_CONF_TRANSLATIONS = ''translations''\<rparr>)"

text \<open>
The property \<^verbatim>\<open>bundle_library_directory\<close> (documented as relative to the AppDir).
\<close>

definition bundle_library_directory :: "appdir_paths \<Rightarrow> string" where
  "bundle_library_directory self =
     (if fhs_like_mode self then
        (let relative_prefix = str_replace (appdir_path self @ ''/'') '''' (fhs_prefix self)
         in os_path_join relative_prefix ''lib'')
      else ''lib'')"

text \<open>
The nine destination directories of a layout, in the order of the source.
\<close>

definition destination_dirs :: "appdir_paths \<Rightarrow> string list" where
  "destination_dirs p =
     [BIN_DIR p, LIB_DIR p, PLUGINS_DIR p, QML_DIR p, TRANSLATIONS_DIR p, SHARE_DIR p, DOC_DIR p,
      LIBEXEC_DIR p, RESOURCES_DIR p]"

text \<open>
A directory name with the separator that \<^verbatim>\<open>posixpath.join\<close> puts behind it.
\<close>

definition dir_prefix :: "string \<Rightarrow> string" where
  "dir_prefix root = (if root = [] \<or> endswith root ''/'' then root else root @ ''/'')"

text \<open>
A path lies inside \<open>root\<close> when it is \<open>root\<close> itself or \<open>root\<close>, a separator and a
relative path with no \<^verbatim>\<open>..\<close> component.
\<close>

definition lies_inside :: "string \<Rightarrow> string \<Rightarrow> bool" where
  "lies_inside root p =
     (p = root \<or>
      (startswith p (dir_prefix root) \<and>
       (let rel = drop (length (dir_prefix root)) p
        in rel \<noteq> [] \<and> \<not> startswith rel ''/'' \<and> ''..'' \<notin> set (split_on CHR ''/'' rel))))"

section \<open>RPATH entries (tools/qt\_deployer.py, \_change\_identification)\<close>

text \<open>
  The part of \<^verbatim>\<open>_change_identification\<close> that computes the RPATH of a deployed binary.
  \<^verbatim>\<open>os.path.relpath(lib_dir, binary_dir)\<close> depends on the working directory of the
  process; its outcome is a parameter: \<open>Some rel_path\<close>, or \<open>None\<close> for the ValueError
  the source catches.
\<close>

text \<open>
\<^verbatim>\<open>posixpath.isabs\<close>: an absolute path starts with a slash.
\<close>

definition os_path_isabs :: "string \<Rightarrow> bool" where
  "os_path_isabs p = startswith p ''/''"

text \<open>
The list \<^verbatim>\<open>rpath_parts\<close> after the class of the binary and the layout mode have added
their entries.
\<close>

definition rpath_parts :: "string \<Rightarrow> bool \<Rightarrow> string option \<Rightarrow> string list" where
  "rpath_parts binary_path fhs_like rel =
     (let new_rpath_entry =
            (case rel of Some rel_path \<Rightarrow> ''$ORIGIN/'' @ rel_path | None \<Rightarrow> ''$ORIGIN/../lib'');
          parts0 = [''$ORIGIN'', new_rpath_entry];
          parts1 =
            (if str_in ''plugins'' binary_path then
               (if str_in ''platforms'' binary_path \<or> str_in ''imageformats'' binary_path
                then parts0 @ [''$ORIGIN/../../lib'', ''$ORIGIN/../../../lib'']
                else parts0 @ [''$ORIGIN/../../lib''])
             else if str_in ''qml'' binary_path then
               parts0 @ [''$ORIGIN/../../lib'', ''$ORIGIN/../../../lib'', ''$ORIGIN/../../../../lib'']
             else parts0 @ [''$ORIGIN/lib'', ''$ORIGIN/../lib''])
      in if fhs_like then parts1 @ [''$ORIGIN/../../lib'', ''$ORIGIN/../usr/lib''] else parts1)"

text \<open>
The loop that removes duplicates and keeps the first occurrence of each entry.
\<close>

fun unique_parts :: "string list \<Rightarrow> string list \<Rightarrow> string list" where
  "unique_parts acc [] = acc"
| "unique_parts acc (part # parts) =
     unique_parts (if part \<in> set acc then acc else acc @ [part]) parts"

definition unique_rpath_parts :: "string \<Rightarrow> bool \<Rightarrow> string option \<Rightarrow> string list" where
  "unique_rpath_parts binary_path fhs_like rel = unique_parts [] (rpath_parts binary_path fhs_like rel)"

definition final_rpath :: "string \<Rightarrow> bool \<Rightarrow> string option \<Rightarrow> string" where
  "final_rpath binary_path fhs_like rel = str_join '':'' (unique_rpath_parts binary_path fhs_like rel)"

section \<open>Final RPATH audit (tools/qt\_deployer.py, \_verify\_and\_fix\_rpaths)\<close>

text \<open>
  The audit talks to the file system and to \<^verbatim>\<open>patchelf\<close>. Both are inputs of the model: the
  files \<^verbatim>\<open>os.walk\<close> yields, with what the source asks of each one, and the answers of
  \<^verbatim>\<open>patchelf --print-rpath\<close>. What the audit does to the world is recorded: every
  \<^verbatim>\<open>patchelf --set-rpath\<close> call, every \<^verbatim>\<open>chmod\<close>, and the warning and success lines of the
  log (debug and info lines are left out; a warning carries the path of the file where
  the source prints it relative to the target directory).
\<close>

text \<open>
One file of the walk: its joined path, its name, \<^verbatim>\<open>os.path.isfile\<close>,
\<^verbatim>\<open>os.access(path, X_OK)\<close>, and the first four bytes (\<open>None\<close> when opening or reading raises).
\<close>

record walked_file =
  file_path :: string
  file_name :: string
  is_file :: bool
  x_ok :: bool
  header :: "byte list option"

text \<open>
The deployer's attributes the audit reads and the answers of the outside world:
\<open>print_rpath\<close> is \<^verbatim>\<open>patchelf --print-rpath\<close> (\<open>None\<close> when running it raises, otherwise the
exit code and the output), \<open>set_rpath_ok\<close> tells whether \<^verbatim>\<open>patchelf --set-rpath\<close> and the
\<^verbatim>\<open>chmod\<close> behind it run without an exception.
\<close>

record audit_env =
  appdir :: "appdir_paths option"
  app_binary_path :: string
  deployer_fhs_like_mode :: bool
  print_rpath :: "string \<Rightarrow> (nat \<times> string) option"
  set_rpath_ok :: "string \<Rightarrow> bool"
  path_exists :: "string \<Rightarrow> bool"

datatype audit_log =
    Warn_problematic_rpath string string
  | Warn_found_problematic nat
  | Warn_still_problematic string string
  | Warn_still_count nat
  | Warn_could_not_apply_final_fixes string
  | Success_all_fixed
  | Success_all_correct

record audit_state =
  set_rpath_calls :: "(string \<times> string) list"
  chmod_calls :: "string list"
  audit_logged :: "audit_log list"

definition is_elf :: "walked_file \<Rightarrow> bool" where
  "is_elf entry = (case header entry of None \<Rightarrow> False | Some hd4 \<Rightarrow> hd4 = ELF_MAGIC_BYTES)"

definition audit_candidate :: "walked_file \<Rightarrow> bool" where
  "audit_candidate entry =
     (is_file entry
      \<and> (endswith (file_name entry) ''.so'' \<or> str_in ''.so.'' (file_name entry) \<or> x_ok entry)
      \<and> is_elf entry)"

definition elf_files :: "walked_file list \<Rightarrow> string list" where
  "elf_files files = map file_path (filter audit_candidate files)"

definition has_absolute_paths :: "string \<Rightarrow> bool" where
  "has_absolute_paths current_rpath =
     list_ex (\<lambda>path. \<not> startswith path ''$ORIGIN'' \<and> path \<noteq> []) (split_on CHR '':'' current_rpath)"

text \<open>
The first loop: the files whose RPATH is flagged, with one warning each.
\<close>

fun check_rpaths :: "audit_env \<Rightarrow> string list \<Rightarrow> string list \<times> audit_log list
    \<Rightarrow> string list \<times> audit_log list" where
  "check_rpaths env [] acc = acc"
| "check_rpaths env (elf_file # rest) (problematic_files, lg) =
     (case print_rpath env elf_file of
        None \<Rightarrow> check_rpaths env rest (problematic_files, lg)
      | Some (returncode, out) \<Rightarrow>
          if returncode \<noteq> 0 then check_rpaths env rest (problematic_files, lg)
          else let current_rpath = strip out in
            if has_absolute_paths current_rpath \<or> current_rpath = []
            then check_rpaths env rest
                   (problematic_files @ [elf_file], lg @ [Warn_problematic_rpath elf_file current_rpath])
            else check_rpaths env rest (problematic_files, lg))"

text \<open>
The second loop over the flagged files. Between the two loops the source runs
\<^verbatim>\<open>for file_path in problematic_files: pass\<close>: the repair call is commented out.
\<close>

fun recheck_rpaths :: "audit_env \<Rightarrow> string list \<Rightarrow> nat \<times> audit_log list \<Rightarrow> nat \<times> audit_log list" where
  "recheck_rpaths env [] acc = acc"
| "recheck_rpaths env (elf_file # rest) (still_problematic, lg) =
     (case print_rpath env elf_file of
        None \<Rightarrow> recheck_rpaths env rest (still_problematic, lg)
      | Some (returncode, out) \<Rightarrow>
          if returncode = 0 \<and> has_absolute_paths (strip out)
          then recheck_rpaths env rest
                 (still_problematic + 1, lg @ [Warn_still_problematic elf_file (strip out)])
          else recheck_rpaths env rest (still_problematic, lg))"

definition apply_final_binary_fixes :: "audit_env \<Rightarrow> string \<Rightarrow> audit_state \<Rightarrow> audit_state" where
  "apply_final_binary_fixes env binary_path st =
     (if \<not> path_exists env binary_path then st
      else let st1 = st\<lparr>set_rpath_calls :=
                          set_rpath_calls st @ [(''$ORIGIN:$ORIGIN/lib:$ORIGIN/../lib'', binary_path)]\<rparr>
      in if set_rpath_ok env binary_path
         then st1\<lparr>chmod_calls := chmod_calls st1 @ [binary_path]\<rparr>
         else st1\<lparr>audit_logged := audit_logged st1 @ [Warn_could_not_apply_final_fixes binary_path]\<rparr>)"

definition verify_and_fix_rpaths :: "audit_env \<Rightarrow> string \<Rightarrow> walked_file list \<Rightarrow> bool \<times> audit_state" where
  "verify_and_fix_rpaths env target_dir files =
     (let st0 = \<lparr>set_rpath_calls = [], chmod_calls = [], audit_logged = []\<rparr> in
      case appdir env of
        None \<Rightarrow> (False, st0)
      | Some paths \<Rightarrow>
          let (problematic_files, lg1) = check_rpaths env (elf_files files) ([], []);
              lg2 =
                (if problematic_files \<noteq> [] then
                   (let (still_problematic, lg) =
                          recheck_rpaths env problematic_files
                            (0, lg1 @ [Warn_found_problematic (length problematic_files)])
                    in if still_problematic > 0 then lg @ [Warn_still_count still_problematic]
                       else lg @ [Success_all_fixed])
                 else lg1 @ [Success_all_correct]);
              st1 = apply_final_binary_fixes env
                      (os_path_join target_dir (os_path_basename (app_binary_path env)))
                      (st0\<lparr>audit_logged := lg2\<rparr>);
              st2 =
                (if deployer_fhs_like_mode env then
                   (let bin_path = os_path_join (BIN_DIR paths) (os_path_basename (app_binary_path env))
                    in if path_exists env bin_path then apply_final_binary_fixes env bin_path st1
                       else st1)
                 else st1)
          in (True, st2))"

text \<open>
A file is flagged when \<^verbatim>\<open>patchelf\<close> prints its RPATH with exit code 0 and the RPATH is empty
or has a non-empty entry that does not start with \<^verbatim>\<open>$ORIGIN\<close>.
\<close>

definition flagged_rpath :: "audit_env \<Rightarrow> string \<Rightarrow> bool" where
  "flagged_rpath env f =
     (case print_rpath env f of
        None \<Rightarrow> False
      | Some (returncode, out) \<Rightarrow>
          returncode = 0 \<and> (has_absolute_paths (strip out) \<or> strip out = []))"

definition problematic_files :: "audit_env \<Rightarrow> walked_file list \<Rightarrow> string list" where
  "problematic_files env files = fst (check_rpaths env (elf_files files) ([], []))"

text \<open>
Two audits of a bundle that holds one library: \<^verbatim>\<open>patchelf --print-rpath\<close> answers
\<^verbatim>\<open>/usr/lib:$ORIGIN\<close> for it in the first, and an empty line in the second.
\<close>

definition audit_example_env :: audit_env where
  "audit_example_env =
     \<lparr>appdir = Some (AppDirPaths ''/tmp/AppDir'' False ''''),
      app_binary_path = ''/build/app'',
      deployer_fhs_like_mode = False,
      print_rpath = (\<lambda>f. Some (0, ''/usr/lib:$ORIGIN'' @ [CHR 0x0A])),
      set_rpath_ok = (\<lambda>f. True),
      path_exists = (\<lambda>f. True)\<rparr>"

definition audit_empty_env :: audit_env where
  "audit_empty_env =
     \<lparr>appdir = Some (AppDirPaths ''/tmp/AppDir'' False ''''),
      app_binary_path = ''/build/app'',
      deployer_fhs_like_mode = False,
      print_rpath = (\<lambda>f. Some (0, [CHR 0x0A])),
      set_rpath_ok = (\<lambda>f. True),
      path_exists = (\<lambda>f. True)\<rparr>"

definition audit_example_files :: "walked_file list" where
  "audit_example_files =
     [\<lparr>file_path = ''/tmp/AppDir/lib/libfoo.so'', file_name = ''libfoo.so'', is_file = True,
       x_ok = False, header = Some [0x7F, 0x45, 0x4C, 0x46]\<rparr>]"

text \<open>
The warning the first loop logs for a flagged file.
\<close>

definition warned :: "audit_env \<Rightarrow> string \<Rightarrow> audit_log" where
  "warned env f =
     Warn_problematic_rpath f (case print_rpath env f of None \<Rightarrow> [] | Some (returncode, out) \<Rightarrow> strip out)"

text \<open>
The log lines of the two loops together.
\<close>

definition audit_log_after_checks :: "audit_env \<Rightarrow> walked_file list \<Rightarrow> audit_log list" where
  "audit_log_after_checks env files =
     (let (problematic_files, lg1) = check_rpaths env (elf_files files) ([], [])
      in if problematic_files \<noteq> [] then
           (let (still_problematic, lg) =
                  recheck_rpaths env problematic_files
                    (0, lg1 @ [Warn_found_problematic (length problematic_files)])
            in if still_problematic > 0 then lg @ [Warn_still_count still_problematic]
               else lg @ [Success_all_fixed])
         else lg1 @ [Success_all_correct])"

section \<open>Dependency collector (tools/ldd\_dependency\_collector.py)\<close>

text \<open>
  The collector runs \<^verbatim>\<open>ldd\<close> and asks the file system whether a path exists. Both are
  inputs of the model: \<open>ldd env p\<close> is the standard output of \<^verbatim>\<open>ldd p\<close>, or the exception
  \<^verbatim>\<open>subprocess.run(..., check=True)\<close> raises. Exceptions are values: a function that can
  raise returns a sum, and a \<^verbatim>\<open>try\<close> block returns the exception together with the
  state it had reached, since Python keeps the mutations made before the raise.
\<close>

text \<open>
The exceptions of this module: the RuntimeError it raises itself, and what
\<^verbatim>\<open>subprocess.run\<close> raises.
\<close>

datatype exn = RuntimeError string | CalledProcessError | OtherException

text \<open>
\<^verbatim>\<open>LddInfo\<close>; a \<^verbatim>\<open>DylibInfo\<close> holds one path, so the dependencies are a list of paths.
\<close>

record ldd_info =
  install_name :: string
  binary_path :: string
  dependencies :: "string list"

text \<open>
The attributes of \<^verbatim>\<open>LddDependencyCollector\<close> the resolution reads or writes.
\<close>

record collector =
  bundle_all_but_core_libs :: bool
  bundle_everything :: bool
  qt_detected :: nat
  qt_detection_complete :: bool

record dep_env =
  ldd :: "string \<Rightarrow> exn + string"
  os_path_exists :: "string \<Rightarrow> bool"

text \<open>
The collector as \<^verbatim>\<open>__init__\<close> leaves it.
\<close>

definition LddDependencyCollector :: collector where
  "LddDependencyCollector =
     \<lparr>bundle_all_but_core_libs = False, bundle_everything = False, qt_detected = 0,
      qt_detection_complete = False\<rparr>"

text \<open>
The positions at which \<open>p\<close> occurs in \<open>s\<close>.
\<close>

definition occurrences :: "string \<Rightarrow> string \<Rightarrow> nat list" where
  "occurrences p s = filter (\<lambda>k. startswith (drop k s) p) [0..<Suc (length s)]"

text \<open>
\<^verbatim>\<open>re.compile(r"^.+ => (.+) \(").match(line).group(1)\<close> on a line without newline (the
lines come from \<^verbatim>\<open>split("\n")\<close>): both groups are greedy, so the arrow is the last one
that leaves room for a non-empty group before the last \<^verbatim>\<open>" ("\<close>.
\<close>

definition ldd_pattern :: "string \<Rightarrow> string option" where
  "ldd_pattern line =
     (case occurrences '' ('' line of
        [] \<Rightarrow> None
      | j # js \<Rightarrow>
          let close = last (j # js) in
          (case filter (\<lambda>i. 1 \<le> i \<and> i + 5 \<le> close) (occurrences '' => '' line) of
             [] \<Rightarrow> None
           | i # is \<Rightarrow> Some (slice line (last (i # is) + 4) close)))"

text \<open>
\<^verbatim>\<open>re.compile(r"^(\S+\.so[^\s]*)\s+\(").match(line).group(1)\<close>: the group is the leading run of
non-space characters; it must contain \<^verbatim>\<open>.so\<close> behind at least one character and be
followed by white space and an opening parenthesis.
\<close>

definition ldd_pattern_absolute :: "string \<Rightarrow> string option" where
  "ldd_pattern_absolute line =
     (let grp = takeWhile (\<lambda>c. \<not> is_space c) line;
          rest = dropWhile (\<lambda>c. \<not> is_space c) line
      in if list_ex (\<lambda>k. 1 \<le> k) (occurrences ''.so'' grp)
            \<and> rest \<noteq> [] \<and> startswith (dropWhile is_space rest) ''(''
         then Some grp else None)"

definition detect_qt_version_from_line :: "collector \<Rightarrow> string \<Rightarrow> collector" where
  "detect_qt_version_from_line self line =
     (if str_in ''libQt6'' line then self\<lparr>qt_detected := 6\<rparr>
      else if str_in ''libQt5'' line then self\<lparr>qt_detected := 5\<rparr>
      else if str_in ''libQtCore.so.4'' line then self\<lparr>qt_detected := 4\<rparr>
      else self)"

text \<open>
The value of \<^verbatim>\<open>dep_path\<close> for one line: \<open>None\<close> where the source leaves it \<^verbatim>\<open>None\<close>.
\<close>

definition parse_dep_path :: "dep_env \<Rightarrow> string \<Rightarrow> string option" where
  "parse_dep_path env line =
     (case ldd_pattern line of
        Some g \<Rightarrow> Some (strip g)
      | None \<Rightarrow>
          (case ldd_pattern_absolute line of
             Some g \<Rightarrow>
               let candidate_path = strip g in
               if \<not> startswith candidate_path ''linux-vdso'' \<and> os_path_exists env candidate_path
               then Some candidate_path else None
           | None \<Rightarrow> None))"

text \<open>
The loop over the output lines. \<^verbatim>\<open>if dep_path:\<close> is false for \<^verbatim>\<open>None\<close> and for the empty
string. The \<^verbatim>\<open>raise\<close> leaves the loop with the dependencies appended so far.
\<close>

fun parse_lines :: "dep_env \<Rightarrow> string list \<Rightarrow> collector \<times> string list
    \<Rightarrow> exn option \<times> collector \<times> string list" where
  "parse_lines env [] (self, deps) = (None, self, deps)"
| "parse_lines env (line # rest) (self, deps) =
     (let self1 = detect_qt_version_from_line self line;
          dep_path = parse_dep_path env line
      in if dep_path \<noteq> None \<and> dep_path \<noteq> Some []
         then parse_lines env rest (self1, deps @ [the dep_path])
         else if str_in ''not found'' line \<and> qt_detection_complete self1
         then (Some (RuntimeError (''Library not found: '' @ strip line)), self1, deps)
         else parse_lines env rest (self1, deps))"

text \<open>
The \<^verbatim>\<open>try\<close> block of \<^verbatim>\<open>_find_dependency_info\<close>.
\<close>

definition find_dependency_info_try :: "dep_env \<Rightarrow> collector \<Rightarrow> string
    \<Rightarrow> exn option \<times> collector \<times> ldd_info" where
  "find_dependency_info_try env self path =
     (let ldd_info = \<lparr>install_name = [], binary_path = path, dependencies = []\<rparr> in
      case ldd env path of
        Inl e \<Rightarrow> (Some e, self, ldd_info)
      | Inr out \<Rightarrow>
          let output_lines = split_on (CHR 0x0A) (strip out) in
          if length output_lines < 2 then (None, self, ldd_info)
          else (case parse_lines env output_lines (self, []) of
                  (raised, self1, deps) \<Rightarrow> (raised, self1, ldd_info\<lparr>dependencies := deps\<rparr>)))"

text \<open>
\<^verbatim>\<open>_find_dependency_info\<close>: the \<^verbatim>\<open>try\<close> block under its two handlers,
\<^verbatim>\<open>except CalledProcessError\<close> and \<^verbatim>\<open>except Exception\<close>; both log and return \<^verbatim>\<open>ldd_info\<close>.
\<close>

definition find_dependency_info :: "dep_env \<Rightarrow> collector \<Rightarrow> string \<Rightarrow> (exn + ldd_info) \<times> collector" where
  "find_dependency_info env self path =
     (case find_dependency_info_try env self path of
        (None, self1, ldd_info) \<Rightarrow> (Inr ldd_info, self1)
      | (Some CalledProcessError, self1, ldd_info) \<Rightarrow> (Inr ldd_info, self1)
      | (Some e, self1, ldd_info) \<Rightarrow> (Inr ldd_info, self1))"

text \<open>
What \<^verbatim>\<open>_collect_all_libraries\<close> changes: the collector, the shared set \<^verbatim>\<open>processed\<close>, and
the world, of which the model keeps the list of binaries \<^verbatim>\<open>ldd\<close> was run on.
\<close>

record collect_state =
  coll :: collector
  processed :: "string set"
  ldd_runs :: "string list"

text \<open>
\<^verbatim>\<open>_collect_all_libraries\<close>. The first argument bounds the depth of the recursion: with no
fuel left the result is \<open>None\<close>. \<open>collect_paths\<close> is the loop over \<^verbatim>\<open>binary_paths\<close>,
\<open>collect_deps\<close> the loop over the dependencies of one binary; \<^verbatim>\<open>libraries\<close> is local to
a call, \<^verbatim>\<open>processed\<close> is shared by all of them. (Python's own recursion limit is not
modelled.)
\<close>

fun collect_all_libraries :: "nat \<Rightarrow> dep_env \<Rightarrow> string list \<Rightarrow> collect_state
      \<Rightarrow> (string set \<times> collect_state) option"
  and collect_paths :: "nat \<Rightarrow> dep_env \<Rightarrow> string list \<Rightarrow> string set \<Rightarrow> collect_state
      \<Rightarrow> (string set \<times> collect_state) option"
  and collect_deps :: "nat \<Rightarrow> dep_env \<Rightarrow> string list \<Rightarrow> string set \<Rightarrow> collect_state
      \<Rightarrow> (string set \<times> collect_state) option" where
  "collect_all_libraries 0 env binary_paths st = None"
| "collect_all_libraries (Suc n) env binary_paths st = collect_paths n env binary_paths {} st"
| "collect_paths n env [] libraries st = Some (libraries, st)"
| "collect_paths n env (bp # rest) libraries st =
     (if bp \<in> processed st then collect_paths n env rest libraries st
      else
        (case find_dependency_info env (coll st) bp of
           (Inl e, self1) \<Rightarrow>
             collect_paths n env rest libraries
               (st\<lparr>coll := self1, processed := insert bp (processed st),
                   ldd_runs := ldd_runs st @ [bp]\<rparr>)
         | (Inr info, self1) \<Rightarrow>
             (case collect_deps n env (dependencies info) libraries
                     (st\<lparr>coll := self1, processed := insert bp (processed st),
                         ldd_runs := ldd_runs st @ [bp]\<rparr>) of
                None \<Rightarrow> None
              | Some (libraries1, st1) \<Rightarrow> collect_paths n env rest libraries1 st1)))"
| "collect_deps n env [] libraries st = Some (libraries, st)"
| "collect_deps n env (lib_path # rest) libraries st =
     (if lib_path \<notin> processed st \<and> os_path_exists env lib_path then
        (case collect_all_libraries n env [lib_path] st of
           None \<Rightarrow> None
         | Some (sub_libs, st1) \<Rightarrow>
             collect_deps n env rest (insert lib_path libraries \<union> sub_libs) st1)
      else collect_deps n env rest (insert lib_path libraries) st)"

text \<open>
An \<^verbatim>\<open>ldd\<close> output of two lines: the vDSO and one resolved library.
\<close>

definition ldd_two_lines :: "string \<Rightarrow> string \<Rightarrow> string" where
  "ldd_two_lines name path =
     [CHR 0x09] @ ''linux-vdso.so.1 (0x00007ffd)'' @ [CHR 0x0A, CHR 0x09]
       @ name @ '' => '' @ path @ '' (0x00007f00)'' @ [CHR 0x0A]"

text \<open>
Three binaries that depend on each other in a cycle.
\<close>

definition cycle_env :: dep_env where
  "cycle_env =
     \<lparr>ldd = (\<lambda>p. if p = ''/A'' then Inr (ldd_two_lines ''B'' ''/B'')
                  else if p = ''/B'' then Inr (ldd_two_lines ''C'' ''/C'')
                  else if p = ''/C'' then Inr (ldd_two_lines ''A'' ''/A'')
                  else Inl CalledProcessError),
      os_path_exists = (\<lambda>p. p \<in> {''/A'', ''/B'', ''/C''})\<rparr>"

text \<open>
No binary has been handed to \<^verbatim>\<open>ldd\<close> twice, and each one that has been is in \<^verbatim>\<open>processed\<close>.
\<close>

definition runs_once :: "collect_state \<Rightarrow> bool" where
  "runs_once st = (distinct (ldd_runs st) \<and> set (ldd_runs st) \<subseteq> processed st)"

text \<open>
A later state: \<^verbatim>\<open>processed\<close> has only grown, and \<^const>\<open>runs_once\<close> is kept.
\<close>

definition grows :: "collect_state \<Rightarrow> collect_state \<Rightarrow> bool" where
  "grows st st' = (processed st \<subseteq> processed st' \<and> (runs_once st \<longrightarrow> runs_once st'))"

text \<open>
The dependency graph stays inside \<open>V\<close>: every dependency of a binary of \<open>V\<close> is in \<open>V\<close>.
\<close>

definition closed_under_deps :: "dep_env \<Rightarrow> string set \<Rightarrow> bool" where
  "closed_under_deps env V =
     (\<forall>p \<in> V. \<forall>self info self1.
         find_dependency_info env self p = (Inr info, self1) \<longrightarrow> set (dependencies info) \<subseteq> V)"

text \<open>
An \<^verbatim>\<open>ldd\<close> output whose second line reports a library that was not found.
\<close>

definition missing_env :: dep_env where
  "missing_env =
     \<lparr>ldd = (\<lambda>p. Inr ([CHR 0x09] @ ''libc.so.6 => /lib/libc.so.6 (0x00007f01)'' @ [CHR 0x0A, CHR 0x09]
                      @ ''libfoo.so.1 => not found'' @ [CHR 0x0A, CHR 0x09]
                      @ ''libm.so.6 => /lib/libm.so.6 (0x00007f02)'' @ [CHR 0x0A])),
      os_path_exists = (\<lambda>p. True)\<rparr>"

section \<open>Properties of the bundling policy\<close>

lemma startswith_iff_append: "startswith s p \<longleftrightarrow> (\<exists>r. s = p @ r)"
  unfolding startswith_def
  by (metis append_eq_conv_conj append_take_drop_id)

lemma str_in_Nil [simp]: "str_in [] s"
  by (cases s) (simp_all add: startswith_def)

lemma str_in_append: "str_in p a \<Longrightarrow> str_in p (a @ b)"
proof (induction a)
  case Nil
  then show ?case by simp
next
  case (Cons c cs)
  from Cons.prems have "startswith (c # cs) p \<or> str_in p cs" by simp
  then show ?case
  proof
    assume "startswith (c # cs) p"
    then obtain r where "c # cs = p @ r" by (auto simp: startswith_iff_append)
    then have "(c # cs) @ b = p @ (r @ b)" by simp
    then have "startswith ((c # cs) @ b) p" unfolding startswith_iff_append by blast
    then show ?thesis by simp
  next
    assume "str_in p cs"
    then show ?thesis using Cons.IH by simp
  qed
qed

lemma lower_append: "lower (a @ b) = lower a @ lower b"
  by (simp add: lower_def)

lemma name_matches_iff: "name_matches n e \<longleftrightarrow> n = e \<or> (\<exists>v. n = e @ ''.'' @ v)"
  unfolding name_matches_def startswith_iff_append by auto

lemma name_matches_append: "name_matches n e \<Longrightarrow> \<exists>r. n = e @ r"
  unfolding name_matches_iff by auto

lemma default_hit_append: "default_hit n \<Longrightarrow> default_hit (n @ r)"
  unfolding default_hit_def list_ex_iff lower_append
  by (auto intro: str_in_append)

lemma never_exclude_default_hit: "list_all default_hit NEVER_EXCLUDE_LIST"
  by code_simp

lemma never_matches_default_hit:
  assumes "list_ex (name_matches n) NEVER_EXCLUDE_LIST"
  shows "default_hit n"
proof -
  from assms obtain e where e: "e \<in> set NEVER_EXCLUDE_LIST" "name_matches n e"
    by (auto simp: list_ex_iff)
  then obtain r where "n = e @ r" using name_matches_append by blast
  moreover have "default_hit e" using never_exclude_default_hit e(1) by (simp add: list_all_iff)
  ultimately show ?thesis by (simp add: default_hit_append)
qed

lemma never_matches_nonempty: "\<not> list_ex (name_matches []) NEVER_EXCLUDE_LIST"
  by code_simp

lemma basename_Nil: "os_path_basename [] = []"
  by (simp add: os_path_basename_def)

lemma never_exclude_names_plain: "list_all (\<lambda>L. os_path_basename L = L) NEVER_EXCLUDE_LIST"
  by code_simp

lemma never_exclude_entry_matches:
  assumes "L \<in> set NEVER_EXCLUDE_LIST"
  shows "list_ex (name_matches (os_path_basename L)) NEVER_EXCLUDE_LIST"
proof -
  have "os_path_basename L = L"
    using never_exclude_names_plain assms by (simp add: list_all_iff)
  moreover have "name_matches L L" by (simp add: name_matches_def)
  ultimately show ?thesis using assms by (auto simp: list_ex_iff)
qed

lemma never_match_bundled:
  assumes "list_ex (name_matches (os_path_basename p)) NEVER_EXCLUDE_LIST"
  shows "Decide p m = Bundle \<and> \<not> should_exclude_library p"
proof -
  have ne: "p \<noteq> []" using assms never_matches_nonempty by (auto simp: basename_Nil)
  have ex: "\<not> should_exclude_library p"
    using assms ne by (simp add: should_exclude_library_def Let_def)
  have hit: "default_hit (os_path_basename p)" using assms by (rule never_matches_default_hit)
  have "should_bundle_library p b1 b2" for b1 b2
    using ex hit by (auto simp: should_bundle_library_def Let_def default_hit_def)
  then show ?thesis using ex by (simp add: Decide_def)
qed

text \<open>
  Claim C1. Every entry \<open>L\<close> of the never-exclude list is bundled in each of the three
  modes, and \<^const>\<open>should_exclude_library\<close> answers False for it. The same holds for
  every path whose basename matches an entry (it is the entry, or the entry followed by a
  dot and a version). Nothing is assumed about the exclude list: the never-exclude loop
  runs before the exclude loop, so the answer is the same when the name matches an
  exclude entry too.
\<close>

theorem never_exclude_wins:
  "(\<forall>L \<in> set NEVER_EXCLUDE_LIST. Decide L m = Bundle \<and> \<not> should_exclude_library L)
   \<and> (list_ex (name_matches (os_path_basename p)) NEVER_EXCLUDE_LIST
        \<longrightarrow> Decide p m = Bundle \<and> \<not> should_exclude_library p)"
  using never_exclude_entry_matches never_match_bundled by blast

theorem never_exclude_wins_witness:
  "Decide ''/usr/lib/libQt5XcbQpa.so.5.15.2'' Default = Bundle
   \<and> Decide ''/usr/lib/libQt5XcbQpa.so.5.15.2'' BundleAllButCore = Bundle
   \<and> Decide ''/usr/lib/libQt5XcbQpa.so.5.15.2'' BundleEverything = Bundle
   \<and> \<not> should_exclude_library ''/usr/lib/libQt5XcbQpa.so.5.15.2''
   \<and> Decide ''libxcb-render-util.so'' Default = Bundle"
proof -
  have h: "list_ex (name_matches (os_path_basename ''/usr/lib/libQt5XcbQpa.so.5.15.2''))
             NEVER_EXCLUDE_LIST"
    by code_simp
  have l: "''libxcb-render-util.so'' \<in> set NEVER_EXCLUDE_LIST"
    by (simp add: NEVER_EXCLUDE_LIST_def)
  have a: "Decide ''/usr/lib/libQt5XcbQpa.so.5.15.2'' m = Bundle
      \<and> \<not> should_exclude_library ''/usr/lib/libQt5XcbQpa.so.5.15.2''" for m
    using never_exclude_wins [of m "''/usr/lib/libQt5XcbQpa.so.5.15.2''"] h by blast
  have b: "Decide ''libxcb-render-util.so'' Default = Bundle"
    using never_exclude_wins [of Default] l by blast
  show ?thesis using a b by blast
qed

lemma should_exclude_library_iff:
  "should_exclude_library p \<longleftrightarrow>
     \<not> list_ex (\<lambda>nss_lib. startswith (os_path_basename p) nss_lib) webengine_required_libs \<and>
     (p = [] \<or> (\<not> list_ex (name_matches (os_path_basename p)) NEVER_EXCLUDE_LIST \<and>
        list_ex (name_matches (os_path_basename p)) GENERATED_EXCLUDE_LIST))"
  by (simp add: should_exclude_library_def Let_def)

lemma decide_all_but_core:
  "Decide p BundleAllButCore = Exclude \<longleftrightarrow> should_exclude_library p"
  by (auto simp: Decide_def should_bundle_library_def should_exclude_library_def Let_def)

text \<open>
  Claim C7. In the all-but-core mode a library is excluded exactly when its basename is
  an entry \<open>E\<close> of the exclude list or is \<open>E\<close>, a dot and a version suffix (and neither
  the web-engine override nor the never-exclude list applies; the empty path is excluded
  outright). So \<^verbatim>\<open>libc.so.6.2\<close> and \<^verbatim>\<open>libc.so.6.1\<close> are excluded through the rule
  \<^verbatim>\<open>libc.so.6\<close>, while \<^verbatim>\<open>libcrypt.so\<close> is bundled: a common prefix with \<^verbatim>\<open>libc.so\<close>
  is not a match.
\<close>

theorem exclude_matching_exact:
  "(Decide p BundleAllButCore = Exclude \<longleftrightarrow>
     \<not> list_ex (\<lambda>nss_lib. startswith (os_path_basename p) nss_lib) webengine_required_libs \<and>
     (p = [] \<or> (\<not> list_ex (name_matches (os_path_basename p)) NEVER_EXCLUDE_LIST \<and>
        (\<exists>E \<in> set GENERATED_EXCLUDE_LIST.
            os_path_basename p = E \<or> (\<exists>v. os_path_basename p = E @ ''.'' @ v)))))
   \<and> Decide ''libc.so.6.2'' BundleAllButCore = Exclude
   \<and> Decide ''libc.so.6.1'' BundleAllButCore = Exclude
   \<and> Decide ''libcrypt.so'' BundleAllButCore = Bundle
   \<and> \<not> name_matches ''libcrypt.so'' ''libc.so''"
proof -
  have a: "Decide ''libc.so.6.2'' BundleAllButCore = Exclude" by code_simp
  have b: "Decide ''libc.so.6.1'' BundleAllButCore = Exclude" by code_simp
  have c: "Decide ''libcrypt.so'' BundleAllButCore = Bundle" by code_simp
  have d: "\<not> name_matches ''libcrypt.so'' ''libc.so''" by code_simp
  have e: "list_ex (name_matches n) GENERATED_EXCLUDE_LIST \<longleftrightarrow>
      (\<exists>E \<in> set GENERATED_EXCLUDE_LIST. n = E \<or> (\<exists>v. n = E @ ''.'' @ v))" for n
    by (simp add: list_ex_iff name_matches_iff)
  have f: "Decide p BundleAllButCore = Exclude \<longleftrightarrow>
     \<not> list_ex (\<lambda>nss_lib. startswith (os_path_basename p) nss_lib) webengine_required_libs \<and>
     (p = [] \<or> (\<not> list_ex (name_matches (os_path_basename p)) NEVER_EXCLUDE_LIST \<and>
        (\<exists>E \<in> set GENERATED_EXCLUDE_LIST.
            os_path_basename p = E \<or> (\<exists>v. os_path_basename p = E @ ''.'' @ v))))"
    unfolding decide_all_but_core should_exclude_library_iff e ..
  show ?thesis
    using a b c d f by blast
qed

theorem exclude_matching_exact_witness:
  "\<exists>E \<in> set GENERATED_EXCLUDE_LIST.
      os_path_basename ''/lib/x86_64-linux-gnu/libc.so.6.2'' = E
      \<or> (\<exists>v. os_path_basename ''/lib/x86_64-linux-gnu/libc.so.6.2'' = E @ ''.'' @ v)"
proof -
  have "Decide ''/lib/x86_64-linux-gnu/libc.so.6.2'' BundleAllButCore = Exclude" by code_simp
  then show ?thesis
    using exclude_matching_exact [of "''/lib/x86_64-linux-gnu/libc.so.6.2''"] by simp
qed

section \<open>Properties of the GNU\_STACK patcher\<close>

lemma length_slice: "length (slice xs a b) = min (b - a) (length xs - a)"
  by (simp add: slice_def)

lemma unpack_slice_ok:
  "a + 4 \<le> length elf \<Longrightarrow> struct_unpack en 4 (slice elf a (a + 4)) = Inr (word_at en elf a)"
  by (simp add: struct_unpack_def word_at_def length_slice)

lemma unpack_slice_err:
  "\<not> a + 4 \<le> length elf \<Longrightarrow> struct_unpack en 4 (slice elf a (a + 4)) = Inl StructError"
  by (simp add: struct_unpack_def length_slice)

lemma ph_le_flags: "e_phoff h + i * e_phentsize h \<le> flags_off h i"
  by (simp add: flags_off_def)

lemma ph_loop_unreadable:
  "\<not> readable h (length elf) i \<Longrightarrow> ph_loop h elf (i # is) st = (st, Some StructError)"
proof (cases "e_phoff h + i * e_phentsize h + 4 \<le> length elf")
  case True
  assume "\<not> readable h (length elf) i"
  then have "\<not> flags_off h i + 4 \<le> length elf" by (simp add: readable_def)
  then show ?thesis using True by (simp add: unpack_slice_ok unpack_slice_err)
next
  case False
  then show ?thesis by (simp add: unpack_slice_err)
qed

lemma ph_loop_readable:
  assumes "readable h (length elf) i"
  shows "ph_loop h elf (i # is) st =
     (if word_at (endian h) elf (e_phoff h + i * e_phentsize h) = PT_GNU_STACK then
        if word_at (endian h) elf (flags_off h i) AND RWX_PERMISSIONS = RWX_PERMISSIONS then
          ph_loop h elf is
            (st\<lparr>disk := file_write (disk st) (flags_off h i) (struct_pack (endian h) 4 RW_PERMISSIONS),
                printed := printed st @ [Found_GNU_STACK i (word_at (endian h) elf (flags_off h i)),
                                         Patched_RWX_to_RW],
                found := True\<rparr>)
        else
          ph_loop h elf is
            (st\<lparr>printed := printed st @ [Found_GNU_STACK i (word_at (endian h) elf (flags_off h i)),
                                         Already_not_executable_stack],
                found := True\<rparr>)
      else ph_loop h elf is st)"
proof -
  have f: "flags_off h i + 4 \<le> length elf" using assms by (simp add: readable_def)
  then have p: "e_phoff h + i * e_phentsize h + 4 \<le> length elf"
    using ph_le_flags [of h i] by linarith
  show ?thesis
    by (simp add: unpack_slice_ok [OF f] unpack_slice_ok [OF p] Let_def)
qed

declare ph_loop.simps(2) [simp del]

lemma ph_loop_disk:
  "disk (fst (ph_loop h elf is st)) =
     foldl (patch_step h elf) (disk st) (takeWhile (readable h (length elf)) is)"
proof (induction "is" arbitrary: st)
  case Nil
  show ?case by simp
next
  case (Cons i "is")
  show ?case
  proof (cases "readable h (length elf) i")
    case False
    then show ?thesis by (simp add: ph_loop_unreadable)
  next
    case True
    show ?thesis
      unfolding ph_loop_readable [OF True]
      using True by (simp add: Cons.IH patch_step_def rwx_entry_def)
  qed
qed

lemma RWX_is_7: "RWX_PERMISSIONS = 7"
  by (simp add: RWX_PERMISSIONS_def PF_R_def PF_W_def PF_X_def)

lemma RW_is_6: "RW_PERMISSIONS = 6"
  by (simp add: RW_PERMISSIONS_def PF_R_def PF_W_def)

lemma le_bytes_4: "le_bytes 4 v =
    [of_nat (v mod 256), of_nat (v div 256 mod 256), of_nat (v div 256 div 256 mod 256),
     of_nat (v div 256 div 256 div 256 mod 256)]"
proof -
  have "le_bytes (Suc (Suc (Suc (Suc 0)))) v =
    [of_nat (v mod 256), of_nat (v div 256 mod 256), of_nat (v div 256 div 256 mod 256),
     of_nat (v div 256 div 256 div 256 mod 256)]"
    by simp
  moreover have "(4::nat) = Suc (Suc (Suc (Suc 0)))" by simp
  ultimately show ?thesis by metis
qed

lemma pack_rw: "struct_pack en 4 RW_PERMISSIONS = (if en = Little then [6, 0, 0, 0] else [0, 0, 0, 6])"
  by (simp add: struct_pack_def RW_is_6 le_bytes_4)

lemma length_pack_rw [simp]: "length (struct_pack en 4 RW_PERMISSIONS) = 4"
  by (simp add: pack_rw)

lemma pack_rw_nth: "j < 4 \<Longrightarrow> struct_pack en 4 RW_PERMISSIONS ! j \<in> {0, 6}"
proof -
  assume "j < 4"
  then consider "j = 0" | "j = 1" | "j = 2" | "j = 3" by linarith
  then show ?thesis by cases (simp_all add: pack_rw)
qed

lemma length_file_write:
  "off + length bs \<le> length f \<Longrightarrow> length (file_write f off bs) = length f"
  by (simp add: file_write_def)

lemma nth_file_write:
  assumes "off + length bs \<le> length f" "k < length f"
  shows "file_write f off bs ! k = (if off \<le> k \<and> k < off + length bs then bs ! (k - off) else f ! k)"
proof -
  have fw: "file_write f off bs = take off f @ (bs @ drop (off + length bs) f)"
    using assms by (simp add: file_write_def)
  have lt: "length (take off f) = off" using assms by simp
  show ?thesis
  proof (cases "k < off")
    case True
    have "(take off f @ (bs @ drop (off + length bs) f)) ! k = take off f ! k"
      using True lt by (simp add: nth_append)
    then show ?thesis using True by (simp add: fw)
  next
    case False
    then have k1: "(take off f @ (bs @ drop (off + length bs) f)) ! k
        = (bs @ drop (off + length bs) f) ! (k - off)"
      using lt by (simp add: nth_append)
    show ?thesis
    proof (cases "k < off + length bs")
      case True
      then have "k - off < length bs" using False by linarith
      then have "(bs @ drop (off + length bs) f) ! (k - off) = bs ! (k - off)"
        by (simp add: nth_append)
      then show ?thesis using True False k1 by (simp add: fw)
    next
      case ge: False
      then have "\<not> k - off < length bs" using False by linarith
      then have "(bs @ drop (off + length bs) f) ! (k - off)
          = drop (off + length bs) f ! (k - off - length bs)"
        by (simp add: nth_append)
      also have "\<dots> = f ! (off + length bs + (k - off - length bs))"
        using assms by simp
      also have "off + length bs + (k - off - length bs) = k" using ge False by linarith
      finally show ?thesis using ge False k1 by (simp add: fw)
    qed
  qed
qed

lemma slice4:
  assumes "a + 4 \<le> length xs"
  shows "slice xs a (a + 4) = [xs ! a, xs ! (a + 1), xs ! (a + 2), xs ! (a + 3)]"
proof (rule nth_equalityI)
  show "length (slice xs a (a + 4)) = length [xs ! a, xs ! (a + 1), xs ! (a + 2), xs ! (a + 3)]"
    using assms by (simp add: slice_def)
next
  fix j assume "j < length (slice xs a (a + 4))"
  then have j: "j < 4" using assms by (simp add: slice_def)
  then consider "j = 0" | "j = 1" | "j = 2" | "j = 3" by linarith
  then show "slice xs a (a + 4) ! j = [xs ! a, xs ! (a + 1), xs ! (a + 2), xs ! (a + 3)] ! j"
    using assms by cases (simp_all add: slice_def)
qed

lemma word_at_bytes:
  assumes "a + 4 \<le> length xs"
  shows "word_at en xs a =
     (if en = Little
      then unat (xs ! a) + 256 * (unat (xs ! (a + 1)) + 256 * (unat (xs ! (a + 2)) + 256 * unat (xs ! (a + 3))))
      else unat (xs ! (a + 3)) + 256 * (unat (xs ! (a + 2)) + 256 * (unat (xs ! (a + 1)) + 256 * unat (xs ! a))))"
  by (simp add: word_at_def slice4 [OF assms])

lemma word_at_cong:
  assumes "a + 4 \<le> length xs" "length ys = length xs"
    and "\<forall>k. a \<le> k \<and> k < a + 4 \<longrightarrow> ys ! k = xs ! k"
  shows "word_at en ys a = word_at en xs a"
proof -
  have "a + 4 \<le> length ys" using assms by simp
  then show ?thesis using assms by (simp add: word_at_bytes)
qed

lemma byte_bound: "unat (b :: byte) < 256"
  using unsigned_less [of b, where ?'a = nat] by simp

lemma split_low_byte:
  fixes a x n :: nat
  assumes "a < 256" "a + 256 * x = n"
  shows "a = n mod 256 \<and> x = n div 256"
  using assms by auto

lemma gnu_stack_bytes:
  fixes a b c d :: byte
  assumes "unat a + 256 * (unat b + 256 * (unat c + 256 * unat d)) = PT_GNU_STACK"
  shows "a = 0x51 \<and> b = 0xE5 \<and> c = 0x74 \<and> d = 0x64"
proof -
  have e: "unat a + 256 * (unat b + 256 * (unat c + 256 * unat d)) = 1685382481"
    using assms by (simp add: PT_GNU_STACK_def)
  have 1: "unat a = 81 \<and> unat b + 256 * (unat c + 256 * unat d) = 6583525"
    using split_low_byte [OF byte_bound e] by simp
  then have 2: "unat b = 229 \<and> unat c + 256 * unat d = 25716"
    using split_low_byte [OF byte_bound, of b "unat c + 256 * unat d" 6583525] by simp
  then have 3: "unat c = 116 \<and> unat d = 100"
    using split_low_byte [OF byte_bound, of c "unat d" 25716] by simp
  have "unat a = unat (0x51 :: byte) \<and> unat b = unat (0xE5 :: byte)
      \<and> unat c = unat (0x74 :: byte) \<and> unat d = unat (0x64 :: byte)" using 1 2 3 by simp
  then show ?thesis by (simp only: word_unat_eq_iff)
qed

lemma and7_mod8: "(n :: nat) AND 7 = n mod 8"
proof -
  have "n AND mask 3 = take_bit 3 n" by (simp add: take_bit_eq_mask)
  then show ?thesis by (simp add: take_bit_eq_mod mask_eq_exp_minus_1)
qed

lemma patched_windows_Nil [simp]: "patched_windows h elf [] = {}"
  by (simp add: patched_windows_def)

lemma patched_windows_Cons:
  "patched_windows h elf (i # V) =
     (if rwx_entry h elf i then {k. flags_off h i \<le> k \<and> k < flags_off h i + 4} else {})
     \<union> patched_windows h elf V"
  by (auto simp: patched_windows_def)

lemma patch_step_length:
  assumes "length d = n" "readable h n i"
  shows "length (patch_step h elf d i) = n"
  using assms by (simp add: patch_step_def readable_def length_file_write)

lemma patch_step_nth:
  assumes "length d = n" "readable h n i" "k < n"
  shows "patch_step h elf d i ! k =
     (if rwx_entry h elf i \<and> flags_off h i \<le> k \<and> k < flags_off h i + 4
      then struct_pack (endian h) 4 RW_PERMISSIONS ! (k - flags_off h i) else d ! k)"
proof -
  have "flags_off h i + length (struct_pack (endian h) 4 RW_PERMISSIONS) \<le> length d"
    using assms by (simp add: readable_def)
  then show ?thesis using assms by (simp add: patch_step_def nth_file_write)
qed

lemma foldl_patch_char:
  assumes "length d = n" "\<forall>i \<in> set V. readable h n i"
  shows "length (foldl (patch_step h elf) d V) = n
     \<and> (\<forall>k < n. (k \<in> patched_windows h elf V \<longrightarrow> foldl (patch_step h elf) d V ! k \<in> {0, 6})
              \<and> (k \<notin> patched_windows h elf V \<longrightarrow> foldl (patch_step h elf) d V ! k = d ! k))"
  using assms
proof (induction V arbitrary: d)
  case Nil
  then show ?case by simp
next
  case (Cons i V)
  let ?d1 = "patch_step h elf d i"
  have r: "readable h n i" using Cons.prems by simp
  have l1: "length ?d1 = n" using Cons.prems(1) r by (rule patch_step_length)
  have ih: "length (foldl (patch_step h elf) ?d1 V) = n
     \<and> (\<forall>k < n. (k \<in> patched_windows h elf V \<longrightarrow> foldl (patch_step h elf) ?d1 V ! k \<in> {0, 6})
              \<and> (k \<notin> patched_windows h elf V \<longrightarrow> foldl (patch_step h elf) ?d1 V ! k = ?d1 ! k))"
    using Cons.IH [OF l1] Cons.prems(2) by simp
  have step: "\<And>k. k < n \<Longrightarrow> ?d1 ! k =
     (if rwx_entry h elf i \<and> flags_off h i \<le> k \<and> k < flags_off h i + 4
      then struct_pack (endian h) 4 RW_PERMISSIONS ! (k - flags_off h i) else d ! k)"
    using patch_step_nth [OF Cons.prems(1) r] by blast
  show ?case
  proof (intro conjI allI impI)
    show "length (foldl (patch_step h elf) d (i # V)) = n" using ih by simp
  next
    fix k assume k: "k < n" and w: "k \<in> patched_windows h elf (i # V)"
    show "foldl (patch_step h elf) d (i # V) ! k \<in> {0, 6}"
    proof (cases "k \<in> patched_windows h elf V")
      case True
      then show ?thesis using ih k by simp
    next
      case False
      then have in_i: "rwx_entry h elf i \<and> flags_off h i \<le> k \<and> k < flags_off h i + 4"
        using w by (auto simp: patched_windows_Cons split: if_splits)
      then have "k - flags_off h i < 4" by linarith
      then have "struct_pack (endian h) 4 RW_PERMISSIONS ! (k - flags_off h i) \<in> {0, 6}"
        by (rule pack_rw_nth)
      then have "?d1 ! k \<in> {0, 6}" using step [OF k] in_i by simp
      moreover have "foldl (patch_step h elf) ?d1 V ! k = ?d1 ! k" using ih k False by blast
      ultimately show ?thesis by simp
    qed
  next
    fix k assume k: "k < n" and w: "k \<notin> patched_windows h elf (i # V)"
    then have nV: "k \<notin> patched_windows h elf V"
      and ni: "\<not> (rwx_entry h elf i \<and> flags_off h i \<le> k \<and> k < flags_off h i + 4)"
      by (auto simp: patched_windows_Cons split: if_splits)
    have "foldl (patch_step h elf) ?d1 V ! k = ?d1 ! k" using ih k nV by blast
    also have "\<dots> = d ! k" using step [OF k] ni by simp
    finally show "foldl (patch_step h elf) d (i # V) ! k = d ! k" by simp
  qed
qed

lemma foldl_patch_no_rwx:
  "\<forall>i \<in> set V. \<not> rwx_entry h elf i \<Longrightarrow> foldl (patch_step h elf) d V = d"
  by (induction V arbitrary: d) (simp_all add: patch_step_def)

lemma word_at_gnu_bytes:
  assumes "a + 4 \<le> length xs" "word_at en xs a = PT_GNU_STACK" "a \<le> k" "k < a + 4"
  shows "xs ! k \<notin> {0, 6}"
proof -
  have k: "k = a \<or> k = a + 1 \<or> k = a + 2 \<or> k = a + 3" using assms(3,4) by linarith
  show ?thesis
  proof (cases "en = Little")
    case True
    have "unat (xs ! a) + 256 * (unat (xs ! (a + 1)) + 256 * (unat (xs ! (a + 2)) + 256 * unat (xs ! (a + 3))))
        = PT_GNU_STACK"
      using assms(2) True by (simp add: word_at_bytes [OF assms(1)])
    from gnu_stack_bytes [OF this] show ?thesis using k by auto
  next
    case False
    have "unat (xs ! (a + 3)) + 256 * (unat (xs ! (a + 2)) + 256 * (unat (xs ! (a + 1)) + 256 * unat (xs ! a)))
        = PT_GNU_STACK"
      using assms(2) False by (simp add: word_at_bytes [OF assms(1)])
    from gnu_stack_bytes [OF this] show ?thesis using k by auto
  qed
qed

lemma mod8_low: "(x + 256 * y) mod 8 = x mod (8::nat)"
proof -
  have "256 * y = 8 * (32 * y)" by simp
  then show ?thesis by (metis mod_mult_self2)
qed

lemma word_at_and7:
  assumes "a + 4 \<le> length xs"
  shows "word_at en xs a AND 7 = unat (xs ! low_pos en a) mod 8"
proof (cases "en = Little")
  case True
  have "word_at en xs a = unat (xs ! a)
      + 256 * (unat (xs ! (a + 1)) + 256 * (unat (xs ! (a + 2)) + 256 * unat (xs ! (a + 3))))"
    using True by (simp add: word_at_bytes [OF assms])
  then have "word_at en xs a mod 8 = unat (xs ! a) mod 8" by (simp only: mod8_low)
  then show ?thesis using True by (simp add: and7_mod8 low_pos_def)
next
  case False
  have "word_at en xs a = unat (xs ! (a + 3))
      + 256 * (unat (xs ! (a + 2)) + 256 * (unat (xs ! (a + 1)) + 256 * unat (xs ! a)))"
    using False by (simp add: word_at_bytes [OF assms])
  then have "word_at en xs a mod 8 = unat (xs ! (a + 3)) mod 8" by (simp only: mod8_low)
  then show ?thesis using False by (simp add: and7_mod8 low_pos_def)
qed

lemma low_byte_rwx:
  fixes b :: byte
  assumes "unat b mod 8 = 7"
  shows "b \<notin> {0, 6}"
  using assms by auto

lemma visited_readable: "i \<in> set (visited h elf) \<Longrightarrow> readable h (length elf) i"
  unfolding visited_def by (rule set_takeWhileD [THEN conjunct2])

lemma patched_file_eq:
  "patched_file f =
     (case read_header f of
        Inr (Some h) \<Rightarrow> foldl (patch_step h f) f (visited h f)
      | _ \<Rightarrow> f)"
proof (cases "read_header f")
  case (Inl e)
  then show ?thesis by (simp add: patched_file_def fix_executable_stack_def)
next
  case (Inr oh)
  show ?thesis
  proof (cases oh)
    case None
    then show ?thesis using Inr by (simp add: patched_file_def fix_executable_stack_def)
  next
    case (Some h)
    obtain st r where lp: "ph_loop h f [0..<e_phnum h] \<lparr>disk = f, printed = [], found = False\<rparr> = (st, r)"
      by (cases "ph_loop h f [0..<e_phnum h] \<lparr>disk = f, printed = [], found = False\<rparr>")
    have "disk st = foldl (patch_step h f) f (visited h f)"
      using ph_loop_disk [of h f "[0..<e_phnum h]" "\<lparr>disk = f, printed = [], found = False\<rparr>"] lp
      by (simp add: visited_def)
    moreover have "patched_file f = disk st"
      using Inr Some lp
      by (cases r) (simp_all add: patched_file_def fix_executable_stack_def)
    ultimately show ?thesis using Inr Some by simp
  qed
qed

lemma rwx_gone:
  assumes n: "length f = n" and rd: "\<forall>i \<in> set V. readable h n i"
    and i: "i \<in> set V"
  shows "\<not> rwx_entry h (foldl (patch_step h f) f V) i"
proof
  let ?f1 = "foldl (patch_step h f) f V"
  let ?p = "e_phoff h + i * e_phentsize h"
  let ?q = "flags_off h i"
  let ?lp = "low_pos (endian h) ?q"
  assume rwx1: "rwx_entry h ?f1 i"
  have ch: "length ?f1 = n
     \<and> (\<forall>k < n. (k \<in> patched_windows h f V \<longrightarrow> ?f1 ! k \<in> {0, 6})
              \<and> (k \<notin> patched_windows h f V \<longrightarrow> ?f1 ! k = f ! k))"
    using n rd by (rule foldl_patch_char)
  have q4: "?q + 4 \<le> n" using rd i by (simp add: readable_def)
  have p4: "?p + 4 \<le> n" using q4 ph_le_flags [of h i] by linarith
  have len1: "length ?f1 = n" using ch by simp
  have ty1: "word_at (endian h) ?f1 ?p = PT_GNU_STACK"
    and fl1: "word_at (endian h) ?f1 ?q AND 7 = 7"
    using rwx1 by (simp_all add: rwx_entry_def RWX_is_7)
  have same_ty: "\<forall>k. ?p \<le> k \<and> k < ?p + 4 \<longrightarrow> ?f1 ! k = f ! k"
  proof (intro allI impI)
    fix k assume k: "?p \<le> k \<and> k < ?p + 4"
    have "?f1 ! k \<notin> {0, 6}"
      using word_at_gnu_bytes [of ?p ?f1 "endian h" k] p4 len1 ty1 k by simp
    moreover have "k < n" using k p4 by linarith
    ultimately show "?f1 ! k = f ! k" using ch by blast
  qed
  have ty: "word_at (endian h) f ?p = PT_GNU_STACK"
    using word_at_cong [of ?p f ?f1 "endian h"] p4 n len1 same_ty ty1 by simp
  have lp_range: "?q \<le> ?lp \<and> ?lp < ?q + 4" by (simp add: low_pos_def)
  have lpn: "?lp < n" using lp_range q4 by linarith
  have "unat (?f1 ! ?lp) mod 8 = 7"
    using word_at_and7 [of ?q ?f1 "endian h"] q4 len1 fl1 by simp
  then have not06: "?f1 ! ?lp \<notin> {0, 6}" by (rule low_byte_rwx)
  then have "?lp \<notin> patched_windows h f V" using ch lpn by blast
  then have same_lp: "?f1 ! ?lp = f ! ?lp" using ch lpn by blast
  have "word_at (endian h) f ?q AND 7 = unat (f ! ?lp) mod 8"
    using word_at_and7 [of ?q f "endian h"] q4 n by simp
  also have "\<dots> = 7" using same_lp \<open>unat (?f1 ! ?lp) mod 8 = 7\<close> by simp
  finally have "rwx_entry h f i" using ty by (simp add: rwx_entry_def RWX_is_7)
  then have "?lp \<in> patched_windows h f V"
    using i lp_range by (auto simp: patched_windows_def)
  then have "?f1 ! ?lp \<in> {0, 6}" using ch lpn by blast
  then show False using not06 by simp
qed

lemma slice_take: "b \<le> m \<Longrightarrow> slice (take m xs) a b = slice xs a b"
  by (simp add: slice_def drop_take min_def)

lemma read_header_short:
  assumes "length f \<le> 5"
  shows "read_header f = (if take 4 f \<noteq> ELF_MAGIC_BYTES then Inr None else Inl IndexError)"
proof (cases "take 4 f \<noteq> ELF_MAGIC_BYTES")
  case True
  then show ?thesis unfolding read_header_def by (simp only: if_True simp_thms)
next
  case False
  note magic = this
  show ?thesis
  proof (cases "length f \<le> 4")
    case True
    then show ?thesis unfolding read_header_def using magic by (simp only: if_True if_False simp_thms)
  next
    case False
    then show ?thesis unfolding read_header_def Let_def using magic assms
      by (simp only: if_True if_False simp_thms)
  qed
qed

lemma read_header_cong:
  assumes len: "length g = length f" and tk: "take 58 g = take 58 f"
  shows "read_header g = read_header f"
proof -
  have sl: "slice g a b = slice f a b" if "b \<le> 58" for a b
    using slice_take [OF that, of g a] slice_take [OF that, of f a] tk by simp
  have t4: "take 4 g = take 4 f"
  proof -
    have "take 4 (take 58 g) = take 4 (take 58 f)" using tk by simp
    then show ?thesis by simp
  qed
  show ?thesis
  proof (cases "length f \<le> 5")
    case True
    then have "length g \<le> 5" using len by simp
    then have "read_header g = (if take 4 g \<noteq> ELF_MAGIC_BYTES then Inr None else Inl IndexError)"
      by (rule read_header_short)
    also have "\<dots> = (if take 4 f \<noteq> ELF_MAGIC_BYTES then Inr None else Inl IndexError)"
      by (simp only: t4)
    also have "\<dots> = read_header f" using True by (simp only: read_header_short)
    finally show ?thesis .
  next
    case False
    have n4: "g ! 4 = f ! 4"
      using nth_take [of 4 58 g] nth_take [of 4 58 f] tk by simp
    have n5: "g ! 5 = f ! 5"
      using nth_take [of 5 58 g] nth_take [of 5 58 f] tk by simp
    have s1: "slice g (if c then 32 else 28) ((if c then 32 else 28) + (if c then 8 else 4))
        = slice f (if c then 32 else 28) ((if c then 32 else 28) + (if c then 8 else 4))" for c
      by (cases c) (simp_all add: sl)
    have s2: "slice g (if c then 56 else 44) ((if c then 56 else 44) + 2)
        = slice f (if c then 56 else 44) ((if c then 56 else 44) + 2)" for c
      by (cases c) (simp_all add: sl)
    have s3: "slice g (if c then 54 else 42) ((if c then 54 else 42) + 2)
        = slice f (if c then 54 else 42) ((if c then 54 else 42) + 2)" for c
      by (cases c) (simp_all add: sl)
    show ?thesis
      unfolding read_header_def Let_def len t4 n4 n5 s1 s2 s3 by (rule refl)
  qed
qed

lemma flags_off_ge: "hdr_size h \<le> e_phoff h \<Longrightarrow> 58 \<le> flags_off h i"
  by (cases "is_64 h")
     (simp_all add: flags_off_def hdr_size_def PH_FLAGS_OFFSET_64_def PH_FLAGS_OFFSET_32_def
        trans_le_add1)

lemma header_kept:
  assumes hs: "hdr_size h \<le> e_phoff h"
  shows "read_header (foldl (patch_step h f) f (visited h f)) = read_header f"
proof -
  let ?f1 = "foldl (patch_step h f) f (visited h f)"
  have ch: "length ?f1 = length f
     \<and> (\<forall>k < length f. (k \<in> patched_windows h f (visited h f) \<longrightarrow> ?f1 ! k \<in> {0, 6})
              \<and> (k \<notin> patched_windows h f (visited h f) \<longrightarrow> ?f1 ! k = f ! k))"
    by (rule foldl_patch_char) (simp_all add: visited_readable)
  have out: "k \<notin> patched_windows h f (visited h f)" if "k < 58" for k
  proof
    assume "k \<in> patched_windows h f (visited h f)"
    then obtain i where "flags_off h i \<le> k" by (auto simp: patched_windows_def)
    then show False using that flags_off_ge [OF hs, of i] by linarith
  qed
  have "take 58 ?f1 = take 58 f"
  proof (rule nth_equalityI)
    show "length (take 58 ?f1) = length (take 58 f)" using ch by simp
  next
    fix k assume "k < length (take 58 ?f1)"
    then have k: "k < 58" "k < length f" using ch by simp_all
    then have "?f1 ! k = f ! k" using ch out by blast
    then show "take 58 ?f1 ! k = take 58 f ! k" using k by simp
  qed
  then show ?thesis using ch by (intro read_header_cong) simp_all
qed

text \<open>
Claim C3, amended. When the program header table starts at or behind the end of the ELF
header (\<^verbatim>\<open>e_phoff\<close> is at least 64 for a 64-bit file, 52 otherwise), as in every file a
linker writes, a second application leaves the bytes of the first one unchanged. Files
that are not ELF files or too short for a header satisfy the hypothesis trivially: they
are never written.
\<close>

theorem fix_executable_stack_idempotent:
  assumes "\<forall>h. read_header f = Inr (Some h) \<longrightarrow> hdr_size h \<le> e_phoff h"
  shows "patched_file (patched_file f) = patched_file f"
proof (cases "\<exists>h. read_header f = Inr (Some h)")
  case False
  then have "patched_file f = f"
    unfolding patched_file_eq by (auto split: sum.splits option.splits)
  then show ?thesis by simp
next
  case True
  then obtain h where h: "read_header f = Inr (Some h)" by blast
  let ?f1 = "foldl (patch_step h f) f (visited h f)"
  have p1: "patched_file f = ?f1" using h by (simp add: patched_file_eq)
  have hs: "hdr_size h \<le> e_phoff h" using assms h by blast
  have h1: "read_header ?f1 = Inr (Some h)" using header_kept [OF hs] h by simp
  have len: "length ?f1 = length f"
    using foldl_patch_char [of f "length f" "visited h f" h f] by (simp add: visited_readable)
  then have v: "visited h ?f1 = visited h f" by (simp add: visited_def)
  have "\<forall>i \<in> set (visited h f). \<not> rwx_entry h ?f1 i"
    using rwx_gone [of f "length f" "visited h f" h] by (simp add: visited_readable)
  then have "foldl (patch_step h ?f1) ?f1 (visited h f) = ?f1" by (rule foldl_patch_no_rwx)
  then have "patched_file ?f1 = ?f1" using h1 v by (simp add: patched_file_eq)
  then show ?thesis using p1 by simp
qed

lemma gnu_windows_apart:
  assumes a: "word_at en xs p = PT_GNU_STACK" and b: "word_at en xs p' = PT_GNU_STACK"
    and lp: "p + 4 \<le> length xs" and lp': "p' + 4 \<le> length xs"
    and lt: "p < p'" and near: "p' < p + 4"
  shows False
proof -
  have k: "p' = p + 1 \<or> p' = p + 2 \<or> p' = p + 3" using lt near by linarith
  show False
  proof (cases "en = Little")
    case True
    have "unat (xs ! p) + 256 * (unat (xs ! (p + 1)) + 256 * (unat (xs ! (p + 2)) + 256 * unat (xs ! (p + 3))))
        = PT_GNU_STACK"
      using a True by (simp add: word_at_bytes [OF lp])
    from gnu_stack_bytes [OF this]
    have 1: "xs ! (p + 1) = 0xE5 \<and> xs ! (p + 2) = 0x74 \<and> xs ! (p + 3) = 0x64" by simp
    have "unat (xs ! p') + 256 * (unat (xs ! (p' + 1)) + 256 * (unat (xs ! (p' + 2)) + 256 * unat (xs ! (p' + 3))))
        = PT_GNU_STACK"
      using b True by (simp add: word_at_bytes [OF lp'])
    from gnu_stack_bytes [OF this] have "xs ! p' = 0x51" by simp
    then show False using 1 k by auto
  next
    case False
    have "unat (xs ! (p + 3)) + 256 * (unat (xs ! (p + 2)) + 256 * (unat (xs ! (p + 1)) + 256 * unat (xs ! p)))
        = PT_GNU_STACK"
      using a False by (simp add: word_at_bytes [OF lp])
    from gnu_stack_bytes [OF this]
    have 1: "xs ! (p + 1) = 0x74 \<and> xs ! (p + 2) = 0xE5 \<and> xs ! (p + 3) = 0x51" by simp
    have "unat (xs ! (p' + 3)) + 256 * (unat (xs ! (p' + 2)) + 256 * (unat (xs ! (p' + 1)) + 256 * unat (xs ! p')))
        = PT_GNU_STACK"
      using b False by (simp add: word_at_bytes [OF lp'])
    from gnu_stack_bytes [OF this] have "xs ! p' = 0x64" by simp
    then show False using 1 k by auto
  qed
qed

lemma rwx_windows_apart:
  assumes "rwx_entry h f i" "rwx_entry h f j" "readable h (length f) i" "readable h (length f) j"
    and "flags_off h i \<le> k" "k < flags_off h i + 4" "flags_off h j \<le> k" "k < flags_off h j + 4"
  shows "flags_off h i = flags_off h j"
proof (rule ccontr)
  assume ne: "flags_off h i \<noteq> flags_off h j"
  let ?c = "if is_64 h then PH_FLAGS_OFFSET_64 else PH_FLAGS_OFFSET_32"
  let ?pi = "e_phoff h + i * e_phentsize h"
  let ?pj = "e_phoff h + j * e_phentsize h"
  have fi: "flags_off h i = ?pi + ?c" and fj: "flags_off h j = ?pj + ?c"
    by (simp_all add: flags_off_def)
  have ti: "word_at (endian h) f ?pi = PT_GNU_STACK" and tj: "word_at (endian h) f ?pj = PT_GNU_STACK"
    using assms(1,2) by (simp_all add: rwx_entry_def)
  have li: "?pi + 4 \<le> length f" and lj: "?pj + 4 \<le> length f"
    using assms(3,4) fi fj by (simp_all add: readable_def)
  consider "?pi < ?pj" "?pj < ?pi + 4" | "?pj < ?pi" "?pi < ?pj + 4"
    using ne assms(5-8) fi fj by linarith
  then show False
  proof cases
    case 1
    then show False using gnu_windows_apart [OF ti tj li lj] by blast
  next
    case 2
    then show False using gnu_windows_apart [OF tj ti lj li] by blast
  qed
qed

lemma foldl_patch_window:
  assumes "length d = length f" "\<forall>i \<in> set V. readable h (length f) i"
    and "\<exists>i \<in> set V. rwx_entry h f i \<and> flags_off h i = q" "j < 4"
  shows "foldl (patch_step h f) d V ! (q + j) = struct_pack (endian h) 4 RW_PERMISSIONS ! j"
  using assms(1,2,3)
proof (induction V arbitrary: d)
  case Nil
  then show ?case by simp
next
  case (Cons v V)
  let ?d1 = "patch_step h f d v"
  have rv: "readable h (length f) v" using Cons.prems by simp
  have rV: "\<forall>i \<in> set V. readable h (length f) i" using Cons.prems by simp
  have l1: "length ?d1 = length f" using Cons.prems(1) rv by (rule patch_step_length)
  show ?case
  proof (cases "\<exists>i \<in> set V. rwx_entry h f i \<and> flags_off h i = q")
    case True
    then show ?thesis using Cons.IH [OF l1 rV] by simp
  next
    case False
    then have v: "rwx_entry h f v" "flags_off h v = q" using Cons.prems(3) by auto
    have kn: "q + j < length f" using rv v(2) assms(4) by (simp add: readable_def)
    have d1k: "?d1 ! (q + j) = struct_pack (endian h) 4 RW_PERMISSIONS ! j"
      using patch_step_nth [OF Cons.prems(1) rv kn, of f] v assms(4) by simp
    have ch: "\<forall>k < length f.
        (k \<notin> patched_windows h f V \<longrightarrow> foldl (patch_step h f) ?d1 V ! k = ?d1 ! k)"
      using foldl_patch_char [OF l1 rV, of f] by simp
    have "q + j \<notin> patched_windows h f V"
    proof
      assume "q + j \<in> patched_windows h f V"
      then obtain i' where i': "i' \<in> set V" "rwx_entry h f i'"
          "flags_off h i' \<le> q + j" "q + j < flags_off h i' + 4"
        by (auto simp: patched_windows_def)
      have ri': "readable h (length f) i'" using i'(1) rV by simp
      have "flags_off h v = flags_off h i'"
        using rwx_windows_apart [OF v(1) i'(2) rv ri', of "q + j"] i'(3,4) assms(4) v(2) by simp
      then show False using False i'(1,2) v(2) by auto
    qed
    then show ?thesis using ch kn d1k by simp
  qed
qed

lemmas elf_consts = ELF_MAGIC_BYTES_def ELF_CLASS_64_def ELF_DATA_LSB_def PT_GNU_STACK_def
  PH_FLAGS_OFFSET_64_def PH_FLAGS_OFFSET_32_def

lemma read_sample: "read_header (sample_elf64 fl) = Inr (Some sample_header)"
  by (simp add: sample_elf64_def sample_header_def read_header_def slice_def struct_unpack_def elf_consts)

lemma length_sample: "length (sample_elf64 fl) = 120"
  by (simp add: sample_elf64_def)

lemma sample_header_sel:
  "is_64 sample_header = True" "endian sample_header = Little" "e_phoff sample_header = 64"
  "e_phnum sample_header = 1" "e_phentsize sample_header = 56"
  by (simp_all add: sample_header_def)

lemma sample_offsets:
  "flags_off sample_header 0 = 68"
  by (simp add: flags_off_def sample_header_sel elf_consts)

lemma visited_sample: "visited sample_header (sample_elf64 fl) = [0]"
  by (simp add: visited_def length_sample readable_def sample_offsets sample_header_sel)

lemma sample_type: "word_at Little (sample_elf64 fl) 64 = PT_GNU_STACK"
  by (simp add: word_at_def sample_elf64_def slice_def elf_consts)

lemma sample_flags: "word_at Little (sample_elf64 fl) 68 = unat fl"
  by (simp add: word_at_def sample_elf64_def slice_def elf_consts)

lemma sample_rwx: "rwx_entry sample_header (sample_elf64 fl) 0 \<longleftrightarrow> unat fl AND 7 = 7"
  by (simp add: rwx_entry_def sample_header_sel sample_offsets sample_type sample_flags RWX_is_7)

lemma patched_sample7: "patched_file (sample_elf64 7) = sample_elf64 6"
proof -
  have "patched_file (sample_elf64 7) = file_write (sample_elf64 7) 68 [6, 0, 0, 0]"
    by (simp add: patched_file_eq read_sample visited_sample patch_step_def sample_rwx
        sample_offsets sample_header_sel pack_rw)
  also have "\<dots> = sample_elf64 6" by (simp add: file_write_def sample_elf64_def)
  finally show ?thesis .
qed

lemma patched_sample5: "patched_file (sample_elf64 5) = sample_elf64 5"
  by (simp add: patched_file_eq read_sample visited_sample patch_step_def sample_rwx)

lemma read_overlapping: "read_header overlapping_file =
    Inr (Some \<lparr>is_64 = False, endian = Big, e_phoff = 5, e_phnum = 2, e_phentsize = 46\<rparr>)"
  by (simp add: overlapping_file_def read_header_def slice_def struct_unpack_def elf_consts)

lemma upt2: "[0..<2] = [0, Suc 0]"
  by (simp add: numeral_2_eq_2)

lemmas patch_eval = patched_file_eq read_header_def slice_def struct_unpack_def elf_consts
  visited_def readable_def flags_off_def upt2 patch_step_def rwx_entry_def word_at_def
  RWX_is_7 pack_rw file_write_def and7_mod8

lemma overlapping_first: "patched_file overlapping_file = overlapping_once"
  by (simp add: patch_eval overlapping_file_def overlapping_once_def)

lemma overlapping_second: "patched_file overlapping_once = overlapping_twice"
  by (simp add: patch_eval overlapping_once_def overlapping_twice_def)

text \<open>
Claim C3 as stated, for every input file, fails: on \<^const>\<open>overlapping_file\<close> the first
application rewrites the flags word of entry 0 and with it \<^verbatim>\<open>e_phoff\<close> (5 becomes 0), so
the second application walks other offsets, finds a GNU\_STACK entry at offset 46 with
flags 7 and patches bytes 70 to 73.
\<close>

theorem idempotence_counterexample:
  "patched_file (patched_file overlapping_file) \<noteq> patched_file overlapping_file"
  unfolding overlapping_first overlapping_second
  by (simp add: overlapping_once_def overlapping_twice_def)

lemma ph_loop_printed:
  "printed (fst (ph_loop h elf is st)) =
     printed st @ concat (map (entry_report h elf) (takeWhile (readable h (length elf)) is))"
proof (induction "is" arbitrary: st)
  case Nil
  show ?case by simp
next
  case (Cons i "is")
  show ?case
  proof (cases "readable h (length elf) i")
    case False
    then show ?thesis by (simp add: ph_loop_unreadable)
  next
    case True
    show ?thesis
      unfolding ph_loop_readable [OF True]
      using True by (simp add: Cons.IH entry_report_def rwx_entry_def)
  qed
qed

lemma printed_fix:
  assumes "read_header f = Inr (Some h)"
  shows "\<exists>tail. printed (fst (fix_executable_stack f))
            = concat (map (entry_report h f) (visited h f)) @ tail
          \<and> set tail \<subseteq> {GNU_STACK_segment_not_found}"
proof -
  obtain st r where lp: "ph_loop h f [0..<e_phnum h] \<lparr>disk = f, printed = [], found = False\<rparr> = (st, r)"
    by (cases "ph_loop h f [0..<e_phnum h] \<lparr>disk = f, printed = [], found = False\<rparr>")
  have p: "printed st = concat (map (entry_report h f) (visited h f))"
    using ph_loop_printed [of h f "[0..<e_phnum h]" "\<lparr>disk = f, printed = [], found = False\<rparr>"] lp
    by (simp add: visited_def)
  show ?thesis
  proof (cases "r = None \<and> \<not> found st")
    case True
    then have "printed (fst (fix_executable_stack f)) = printed st @ [GNU_STACK_segment_not_found]"
      using assms lp by (simp add: fix_executable_stack_def)
    then show ?thesis using p by simp
  next
    case False
    then have "printed (fst (fix_executable_stack f)) = printed st @ []"
      using assms lp by (cases r) (auto simp: fix_executable_stack_def)
    then show ?thesis using p by (metis empty_set empty_subsetI)
  qed
qed

lemma and1_mod2: "(n :: nat) AND 1 = n mod 2"
  by (simp add: and_one_eq)

lemma no_x_not_rwx:
  assumes "(n :: nat) AND PF_X = 0"
  shows "n AND RWX_PERMISSIONS \<noteq> RWX_PERMISSIONS"
proof
  assume "n AND RWX_PERMISSIONS = RWX_PERMISSIONS"
  then have "n mod 8 = 7" by (simp add: RWX_is_7 and7_mod8)
  moreover have "n mod 2 = 0" using assms by (simp add: PF_X_def and1_mod2)
  ultimately show False by presburger
qed

lemma patched_file_frame:
  assumes "read_header f = Inr (Some h)"
  shows "length (patched_file f) = length f
     \<and> (\<forall>k < length f. (k \<in> patched_windows h f (visited h f) \<longrightarrow> patched_file f ! k \<in> {0, 6})
              \<and> (k \<notin> patched_windows h f (visited h f) \<longrightarrow> patched_file f ! k = f ! k))"
proof -
  have "patched_file f = foldl (patch_step h f) f (visited h f)"
    using assms by (simp add: patched_file_eq)
  then show ?thesis
    using foldl_patch_char [of f "length f" "visited h f" h f] by (simp add: visited_readable)
qed

lemma patched_file_no_header:
  assumes "\<forall>h. read_header f \<noteq> Inr (Some h)"
  shows "patched_file f = f"
  using assms unfolding patched_file_eq by (auto split: sum.splits option.splits)

lemma patched_file_length: "length (patched_file f) = length f"
proof (cases "\<exists>h. read_header f = Inr (Some h)")
  case True
  then show ?thesis using patched_file_frame by blast
next
  case False
  then show ?thesis by (simp add: patched_file_no_header)
qed

lemma patched_file_changes:
  assumes "k < length f" "patched_file f ! k \<noteq> f ! k"
  shows "\<exists>h i. read_header f = Inr (Some h) \<and> i \<in> set (visited h f) \<and> rwx_entry h f i
            \<and> flags_off h i \<le> k \<and> k < flags_off h i + 4"
proof (cases "\<exists>h. read_header f = Inr (Some h)")
  case False
  then show ?thesis using assms by (simp add: patched_file_no_header)
next
  case True
  then obtain h where h: "read_header f = Inr (Some h)" by blast
  have "k \<in> patched_windows h f (visited h f)"
    using patched_file_frame [OF h] assms by blast
  then show ?thesis using h by (auto simp: patched_windows_def)
qed

lemma patched_file_window:
  assumes h: "read_header f = Inr (Some h)" and i: "i \<in> set (visited h f)" and r: "rwx_entry h f i"
  shows "slice (patched_file f) (flags_off h i) (flags_off h i + 4)
           = struct_pack (endian h) 4 RW_PERMISSIONS"
proof -
  let ?g = "patched_file f"
  let ?q = "flags_off h i"
  have g: "?g = foldl (patch_step h f) f (visited h f)" using h by (simp add: patched_file_eq)
  have q4: "?q + 4 \<le> length ?g"
    using visited_readable [OF i] by (simp add: readable_def patched_file_length)
  have nth: "?g ! (?q + j) = struct_pack (endian h) 4 RW_PERMISSIONS ! j" if "j < 4" for j
    unfolding g
    using foldl_patch_window [of f f "visited h f" h ?q j] i r that
    by (auto simp: visited_readable)
  show ?thesis
  proof (rule nth_equalityI)
    show "length (slice ?g ?q (?q + 4)) = length (struct_pack (endian h) 4 RW_PERMISSIONS)"
      using q4 by (simp add: slice_def)
  next
    fix j assume "j < length (slice ?g ?q (?q + 4))"
    then have j: "j < 4" using q4 by (simp add: slice_def)
    then have "slice ?g ?q (?q + 4) ! j = ?g ! (?q + j)" using q4 by (simp add: slice_def)
    then show "slice ?g ?q (?q + 4) ! j = struct_pack (endian h) 4 RW_PERMISSIONS ! j"
      using nth [OF j] by simp
  qed
qed

lemma patched_file_unchanged:
  assumes "\<forall>h i. read_header f = Inr (Some h) \<and> i \<in> set (visited h f) \<longrightarrow> \<not> rwx_entry h f i"
  shows "patched_file f = f"
proof (cases "\<exists>h. read_header f = Inr (Some h)")
  case False
  then show ?thesis by (simp add: patched_file_no_header)
next
  case True
  then obtain h where h: "read_header f = Inr (Some h)" by blast
  then have "\<forall>i \<in> set (visited h f). \<not> rwx_entry h f i" using assms by blast
  then have "foldl (patch_step h f) f (visited h f) = f" by (rule foldl_patch_no_rwx)
  then show ?thesis using h by (simp add: patched_file_eq)
qed

text \<open>
Claim C8. One application keeps the length of the file; a byte that differs afterwards
lies in the 4-byte flags word of a GNU\_STACK entry the loop reached whose flags had read,
write and execute set; afterwards each such flags word holds the packed read+write value;
and when no GNU\_STACK entry reached has the execute bit, no byte changes.
\<close>

theorem patch_is_surgical:
  "length (patched_file f) = length f
   \<and> (\<forall>k < length f. patched_file f ! k \<noteq> f ! k \<longrightarrow>
        (\<exists>h i. read_header f = Inr (Some h) \<and> i \<in> set (visited h f) \<and> rwx_entry h f i
               \<and> flags_off h i \<le> k \<and> k < flags_off h i + 4))
   \<and> (\<forall>h i. read_header f = Inr (Some h) \<and> i \<in> set (visited h f) \<and> rwx_entry h f i \<longrightarrow>
        slice (patched_file f) (flags_off h i) (flags_off h i + 4)
          = struct_pack (endian h) 4 RW_PERMISSIONS)
   \<and> ((\<forall>h i. read_header f = Inr (Some h) \<and> i \<in> set (visited h f)
          \<and> word_at (endian h) f (e_phoff h + i * e_phentsize h) = PT_GNU_STACK
         \<longrightarrow> word_at (endian h) f (flags_off h i) AND PF_X = 0) \<longrightarrow> patched_file f = f)"
proof (intro conjI allI impI)
  show "length (patched_file f) = length f" by (rule patched_file_length)
next
  fix k assume "k < length f" "patched_file f ! k \<noteq> f ! k"
  then show "\<exists>h i. read_header f = Inr (Some h) \<and> i \<in> set (visited h f) \<and> rwx_entry h f i
               \<and> flags_off h i \<le> k \<and> k < flags_off h i + 4"
    by (rule patched_file_changes)
next
  fix h i assume "read_header f = Inr (Some h) \<and> i \<in> set (visited h f) \<and> rwx_entry h f i"
  then show "slice (patched_file f) (flags_off h i) (flags_off h i + 4)
          = struct_pack (endian h) 4 RW_PERMISSIONS"
    using patched_file_window by blast
next
  assume a: "\<forall>h i. read_header f = Inr (Some h) \<and> i \<in> set (visited h f)
          \<and> word_at (endian h) f (e_phoff h + i * e_phentsize h) = PT_GNU_STACK
         \<longrightarrow> word_at (endian h) f (flags_off h i) AND PF_X = 0"
  have "\<forall>h i. read_header f = Inr (Some h) \<and> i \<in> set (visited h f) \<longrightarrow> \<not> rwx_entry h f i"
    using a no_x_not_rwx unfolding rwx_entry_def by blast
  then show "patched_file f = f" by (rule patched_file_unchanged)
qed

lemma rwx_bits:
  assumes "(n :: nat) AND RWX_PERMISSIONS = RWX_PERMISSIONS"
  shows "n AND PF_W = PF_W \<and> n AND PF_R = PF_R \<and> n AND PF_X = PF_X"
proof -
  have 7: "n AND 7 = 7" using assms by (simp add: RWX_is_7)
  have "(n AND 7) AND 2 = n AND (7 AND 2)" by (rule and.assoc)
  moreover have "(7::nat) AND 2 = 2" by simp
  ultimately have w: "n AND 2 = 2" using 7 by simp
  have "(n AND 7) AND 4 = n AND (7 AND 4)" by (rule and.assoc)
  moreover have "(7::nat) AND 4 = 4" by simp
  ultimately have r: "n AND 4 = 4" using 7 by simp
  have "n mod 8 = 7" using 7 by (simp add: and7_mod8)
  then have "n mod 2 = 1" by presburger
  then have x: "n AND 1 = 1" by (simp add: and1_mod2)
  show ?thesis using w r x by (simp add: PF_W_def PF_R_def PF_X_def)
qed

lemma lacking_bit_not_rwx:
  assumes "(n :: nat) AND PF_W = 0 \<or> n AND PF_R = 0"
  shows "n AND RWX_PERMISSIONS \<noteq> RWX_PERMISSIONS"
  using assms rwx_bits [of n] by (auto simp: PF_W_def PF_R_def)

lemma report_in_printed:
  assumes "read_header f = Inr (Some h)" "i \<in> set (visited h f)" "m \<in> set (entry_report h f i)"
  shows "m \<in> set (printed (fst (fix_executable_stack f)))"
proof -
  obtain tail where "printed (fst (fix_executable_stack f))
            = concat (map (entry_report h f) (visited h f)) @ tail"
    using printed_fix [OF assms(1)] by blast
  then show ?thesis using assms(2,3) by auto
qed

lemma patched_in_printed:
  assumes "read_header f = Inr (Some h)"
    "Patched_RWX_to_RW \<in> set (printed (fst (fix_executable_stack f)))"
  shows "\<exists>i \<in> set (visited h f). rwx_entry h f i"
proof -
  obtain tail where t: "printed (fst (fix_executable_stack f))
            = concat (map (entry_report h f) (visited h f)) @ tail"
      "set tail \<subseteq> {GNU_STACK_segment_not_found}"
    using printed_fix [OF assms(1)] by blast
  have "Patched_RWX_to_RW \<notin> set tail" using t(2) by auto
  then obtain i where "i \<in> set (visited h f)" "Patched_RWX_to_RW \<in> set (entry_report h f i)"
    using assms(2) t(1) by auto
  then show ?thesis by (auto simp: entry_report_def split: if_splits)
qed

lemma printed_no_header:
  assumes "\<forall>h. read_header f \<noteq> Inr (Some h)"
  shows "Patched_RWX_to_RW \<notin> set (printed (fst (fix_executable_stack f)))"
proof (cases "read_header f")
  case (Inl e)
  then show ?thesis by (simp add: fix_executable_stack_def)
next
  case (Inr oh)
  then have "oh = None" using assms by (cases oh) simp_all
  then show ?thesis using Inr by (simp add: fix_executable_stack_def)
qed

text \<open>
Claim C10. The file changes only if some GNU\_STACK entry reached has all three bits set,
\<^verbatim>\<open>(p_flags & 0x7) == 0x7\<close>. An entry that lacks the write bit or the read bit, whatever
its execute bit, is reported as already not executable; when every GNU\_STACK entry
reached is of that kind the file is unchanged and no patch is reported.
\<close>

theorem patch_only_when_rwx:
  "(patched_file f \<noteq> f \<longrightarrow>
      (\<exists>h i. read_header f = Inr (Some h) \<and> i \<in> set (visited h f)
         \<and> word_at (endian h) f (e_phoff h + i * e_phentsize h) = PT_GNU_STACK
         \<and> word_at (endian h) f (flags_off h i) AND RWX_PERMISSIONS = RWX_PERMISSIONS))
   \<and> (\<forall>h i. read_header f = Inr (Some h) \<and> i \<in> set (visited h f)
         \<and> word_at (endian h) f (e_phoff h + i * e_phentsize h) = PT_GNU_STACK
         \<and> (word_at (endian h) f (flags_off h i) AND PF_W = 0
            \<or> word_at (endian h) f (flags_off h i) AND PF_R = 0)
        \<longrightarrow> Already_not_executable_stack \<in> set (printed (fst (fix_executable_stack f))))
   \<and> ((\<forall>h i. read_header f = Inr (Some h) \<and> i \<in> set (visited h f)
          \<and> word_at (endian h) f (e_phoff h + i * e_phentsize h) = PT_GNU_STACK
         \<longrightarrow> (word_at (endian h) f (flags_off h i) AND PF_W = 0
            \<or> word_at (endian h) f (flags_off h i) AND PF_R = 0))
       \<longrightarrow> patched_file f = f
          \<and> Patched_RWX_to_RW \<notin> set (printed (fst (fix_executable_stack f))))"
proof (intro conjI allI impI)
  assume "patched_file f \<noteq> f"
  then have "\<not> (\<forall>h i. read_header f = Inr (Some h) \<and> i \<in> set (visited h f) \<longrightarrow> \<not> rwx_entry h f i)"
    using patched_file_unchanged by blast
  then show "\<exists>h i. read_header f = Inr (Some h) \<and> i \<in> set (visited h f)
         \<and> word_at (endian h) f (e_phoff h + i * e_phentsize h) = PT_GNU_STACK
         \<and> word_at (endian h) f (flags_off h i) AND RWX_PERMISSIONS = RWX_PERMISSIONS"
    unfolding rwx_entry_def by blast
next
  fix h i
  assume a: "read_header f = Inr (Some h) \<and> i \<in> set (visited h f)
         \<and> word_at (endian h) f (e_phoff h + i * e_phentsize h) = PT_GNU_STACK
         \<and> (word_at (endian h) f (flags_off h i) AND PF_W = 0
            \<or> word_at (endian h) f (flags_off h i) AND PF_R = 0)"
  then have "\<not> rwx_entry h f i" using lacking_bit_not_rwx by (simp add: rwx_entry_def)
  then have "Already_not_executable_stack \<in> set (entry_report h f i)"
    using a by (simp add: entry_report_def)
  then show "Already_not_executable_stack \<in> set (printed (fst (fix_executable_stack f)))"
    using a report_in_printed by blast
next
  assume a: "\<forall>h i. read_header f = Inr (Some h) \<and> i \<in> set (visited h f)
          \<and> word_at (endian h) f (e_phoff h + i * e_phentsize h) = PT_GNU_STACK
         \<longrightarrow> (word_at (endian h) f (flags_off h i) AND PF_W = 0
            \<or> word_at (endian h) f (flags_off h i) AND PF_R = 0)"
  have none: "\<forall>h i. read_header f = Inr (Some h) \<and> i \<in> set (visited h f) \<longrightarrow> \<not> rwx_entry h f i"
    using a lacking_bit_not_rwx unfolding rwx_entry_def by blast
  then show "patched_file f = f" by (rule patched_file_unchanged)
  show "Patched_RWX_to_RW \<notin> set (printed (fst (fix_executable_stack f)))"
  proof (cases "\<exists>h. read_header f = Inr (Some h)")
    case False
    then show ?thesis by (simp add: printed_no_header)
  next
    case True
    then show ?thesis using none patched_in_printed by blast
  qed
qed

lemma sample_only_header: "read_header (sample_elf64 fl) = Inr (Some h) \<Longrightarrow> h = sample_header"
  by (simp add: read_sample)

theorem patch_only_when_rwx_witness:
  "patched_file (sample_elf64 5) = sample_elf64 5
   \<and> Already_not_executable_stack \<in> set (printed (fst (fix_executable_stack (sample_elf64 5))))
   \<and> Patched_RWX_to_RW \<notin> set (printed (fst (fix_executable_stack (sample_elf64 5))))"
proof -
  have fl: "word_at (endian sample_header) (sample_elf64 5) (flags_off sample_header 0) AND PF_W = 0"
    by (simp add: sample_header_sel sample_offsets sample_flags PF_W_def)
  have ty: "word_at (endian sample_header) (sample_elf64 5)
      (e_phoff sample_header + 0 * e_phentsize sample_header) = PT_GNU_STACK"
    by (simp add: sample_header_sel sample_type)
  have all: "\<forall>h i. read_header (sample_elf64 5) = Inr (Some h) \<and> i \<in> set (visited h (sample_elf64 5))
          \<and> word_at (endian h) (sample_elf64 5) (e_phoff h + i * e_phentsize h) = PT_GNU_STACK
         \<longrightarrow> (word_at (endian h) (sample_elf64 5) (flags_off h i) AND PF_W = 0
            \<or> word_at (endian h) (sample_elf64 5) (flags_off h i) AND PF_R = 0)"
    using fl by (auto dest!: sample_only_header simp: visited_sample)
  have one: "read_header (sample_elf64 5) = Inr (Some sample_header)
      \<and> 0 \<in> set (visited sample_header (sample_elf64 5))"
    by (simp add: read_sample visited_sample)
  show ?thesis
    using patch_only_when_rwx [of "sample_elf64 5"] all one ty fl by blast
qed

theorem patch_is_surgical_witness:
  "slice (patched_file (sample_elf64 7)) 68 72 = [6, 0, 0, 0]
   \<and> length (patched_file (sample_elf64 7)) = 120
   \<and> patched_file (sample_elf64 6) = sample_elf64 6"
proof -
  have r: "read_header (sample_elf64 7) = Inr (Some sample_header)
      \<and> 0 \<in> set (visited sample_header (sample_elf64 7)) \<and> rwx_entry sample_header (sample_elf64 7) 0"
    by (simp add: read_sample visited_sample sample_rwx and7_mod8)
  have a: "slice (patched_file (sample_elf64 7)) (flags_off sample_header 0) (flags_off sample_header 0 + 4)
      = struct_pack (endian sample_header) 4 RW_PERMISSIONS"
    using patch_is_surgical [of "sample_elf64 7"] r by blast
  have b: "length (patched_file (sample_elf64 7)) = 120"
    using patch_is_surgical [of "sample_elf64 7"] by (simp add: length_sample)
  have "word_at (endian sample_header) (sample_elf64 6) (flags_off sample_header 0) AND PF_X = 0"
    by (simp add: sample_header_sel sample_offsets sample_flags PF_X_def and1_mod2)
  then have "\<forall>h i. read_header (sample_elf64 6) = Inr (Some h) \<and> i \<in> set (visited h (sample_elf64 6))
          \<and> word_at (endian h) (sample_elf64 6) (e_phoff h + i * e_phentsize h) = PT_GNU_STACK
         \<longrightarrow> word_at (endian h) (sample_elf64 6) (flags_off h i) AND PF_X = 0"
    by (auto dest!: sample_only_header simp: visited_sample)
  then have c: "patched_file (sample_elf64 6) = sample_elf64 6"
    using patch_is_surgical [of "sample_elf64 6"] by blast
  show ?thesis using a b c by (simp add: sample_offsets sample_header_sel pack_rw)
qed

theorem fix_executable_stack_idempotent_witness:
  "patched_file (patched_file (sample_elf64 7)) = patched_file (sample_elf64 7)
   \<and> patched_file (sample_elf64 7) \<noteq> sample_elf64 7"
proof -
  have "\<forall>h. read_header (sample_elf64 7) = Inr (Some h) \<longrightarrow> hdr_size h \<le> e_phoff h"
    by (auto dest!: sample_only_header simp: hdr_size_def sample_header_sel)
  then have "patched_file (patched_file (sample_elf64 7)) = patched_file (sample_elf64 7)"
    by (rule fix_executable_stack_idempotent)
  moreover have "patched_file (sample_elf64 7) \<noteq> sample_elf64 7"
    unfolding patched_sample7 by (simp add: sample_elf64_def)
  ultimately show ?thesis by simp
qed

section \<open>Properties of the AppDir layout\<close>

declare str_replace.simps [simp del]

lemma endswith_slash: "endswith s ''/'' \<longleftrightarrow> s \<noteq> [] \<and> last s = CHR ''/''"
proof (cases s rule: rev_cases)
  case Nil
  then show ?thesis by (simp add: endswith_def)
next
  case (snoc ys y)
  then show ?thesis by (auto simp: endswith_def)
qed

lemma join_rel: "\<not> startswith b ''/'' \<Longrightarrow> os_path_join a b = dir_prefix a @ b"
  by (simp add: os_path_join_def dir_prefix_def)

lemma dir_prefix_append:
  "b \<noteq> [] \<Longrightarrow> last b \<noteq> CHR ''/'' \<Longrightarrow> dir_prefix (a @ b) = a @ b @ ''/''"
  by (simp add: dir_prefix_def endswith_slash)

lemma inside_rel:
  assumes "rel \<noteq> []" "\<not> startswith rel ''/''" "''..'' \<notin> set (split_on CHR ''/'' rel)"
  shows "lies_inside root (dir_prefix root @ rel)"
  using assms by (simp add: lies_inside_def startswith_def)

lemma inside_join:
  assumes "rel \<noteq> []" "\<not> startswith rel ''/''" "''..'' \<notin> set (split_on CHR ''/'' rel)"
  shows "lies_inside root (os_path_join root rel)"
  using assms by (simp add: join_rel inside_rel)

lemma join_usr: "os_path_join root ''usr'' = dir_prefix root @ ''usr''"
  by (simp add: join_rel startswith_def)

lemma join3_usr:
  assumes "\<not> startswith c ''/''"
  shows "os_path_join3 root ''usr'' c = dir_prefix (os_path_join root ''usr'') @ c"
  using assms by (simp add: os_path_join3_def join_rel)

lemma join4_usr_share_doc:
  "os_path_join4 root ''usr'' ''share'' ''doc''
     = dir_prefix (os_path_join root ''usr'') @ ''share/doc''"
proof -
  let ?u = "os_path_join root ''usr''"
  have "os_path_join ?u ''share'' = dir_prefix ?u @ ''share''"
    by (simp add: join_rel startswith_def)
  moreover have "dir_prefix (dir_prefix ?u @ ''share'') = dir_prefix ?u @ ''share'' @ ''/''"
    by (rule dir_prefix_append) simp_all
  ultimately show ?thesis
    by (simp add: os_path_join4_def join_rel [of "''doc''"] startswith_def)
qed

lemma flat_dirs_inside:
  "\<forall>d \<in> set (destination_dirs (AppDirPaths root False prefix)). lies_inside root d"
proof -
  have "lies_inside root root" by (simp add: lies_inside_def)
  moreover have "lies_inside root (os_path_join root ''lib'')"
    by (rule inside_join) (simp_all add: startswith_def)
  moreover have "lies_inside root (os_path_join root ''plugins'')"
    by (rule inside_join) (simp_all add: startswith_def)
  moreover have "lies_inside root (os_path_join root ''qml'')"
    by (rule inside_join) (simp_all add: startswith_def)
  moreover have "lies_inside root (os_path_join root ''translations'')"
    by (rule inside_join) (simp_all add: startswith_def)
  moreover have "lies_inside root (os_path_join root ''share'')"
    by (rule inside_join) (simp_all add: startswith_def)
  moreover have "lies_inside root (os_path_join root ''doc'')"
    by (rule inside_join) (simp_all add: startswith_def)
  moreover have "lies_inside root (os_path_join root ''libexec'')"
    by (rule inside_join) (simp_all add: startswith_def)
  moreover have "lies_inside root (os_path_join root ''resources'')"
    by (rule inside_join) (simp_all add: startswith_def)
  ultimately show ?thesis by (simp add: destination_dirs_def AppDirPaths_def)
qed

lemma fhs_dirs_under_usr:
  "\<forall>d \<in> set (destination_dirs (AppDirPaths root True prefix)).
      lies_inside (os_path_join root ''usr'') d"
proof -
  let ?u = "os_path_join root ''usr''"
  have "lies_inside ?u (os_path_join3 root ''usr'' ''bin'')"
    unfolding join3_usr [of "''bin''" root, simplified startswith_def, simplified]
    by (rule inside_rel) (simp_all add: startswith_def)
  moreover have "lies_inside ?u (os_path_join3 root ''usr'' ''lib'')"
    unfolding join3_usr [of "''lib''" root, simplified startswith_def, simplified]
    by (rule inside_rel) (simp_all add: startswith_def)
  moreover have "lies_inside ?u (os_path_join3 root ''usr'' ''plugins'')"
    unfolding join3_usr [of "''plugins''" root, simplified startswith_def, simplified]
    by (rule inside_rel) (simp_all add: startswith_def)
  moreover have "lies_inside ?u (os_path_join3 root ''usr'' ''qml'')"
    unfolding join3_usr [of "''qml''" root, simplified startswith_def, simplified]
    by (rule inside_rel) (simp_all add: startswith_def)
  moreover have "lies_inside ?u (os_path_join3 root ''usr'' ''translations'')"
    unfolding join3_usr [of "''translations''" root, simplified startswith_def, simplified]
    by (rule inside_rel) (simp_all add: startswith_def)
  moreover have "lies_inside ?u (os_path_join3 root ''usr'' ''share'')"
    unfolding join3_usr [of "''share''" root, simplified startswith_def, simplified]
    by (rule inside_rel) (simp_all add: startswith_def)
  moreover have "lies_inside ?u (os_path_join4 root ''usr'' ''share'' ''doc'')"
    unfolding join4_usr_share_doc
    by (rule inside_rel) (simp_all add: startswith_def)
  moreover have "lies_inside ?u (os_path_join3 root ''usr'' ''libexec'')"
    unfolding join3_usr [of "''libexec''" root, simplified startswith_def, simplified]
    by (rule inside_rel) (simp_all add: startswith_def)
  moreover have "lies_inside ?u (os_path_join3 root ''usr'' ''resources'')"
    unfolding join3_usr [of "''resources''" root, simplified startswith_def, simplified]
    by (rule inside_rel) (simp_all add: startswith_def)
  ultimately show ?thesis by (simp add: destination_dirs_def AppDirPaths_def)
qed

lemma str_replace_absent:
  assumes "c \<in> set old" "c \<notin> set s"
  shows "str_replace old new s = s"
  using assms(2)
proof (induction s)
  case Nil
  have "old \<noteq> []" using assms(1) by auto
  then show ?case by (simp add: str_replace.simps [of old new "[]"])
next
  case (Cons x xs)
  have ne: "old \<noteq> []" using assms(1) by auto
  have "\<not> startswith (x # xs) old"
  proof
    assume "startswith (x # xs) old"
    then have "set old \<subseteq> set (x # xs)"
      unfolding startswith_def by (metis set_take_subset)
    then show False using assms(1) Cons.prems by auto
  qed
  then have "str_replace old new (x # xs) = x # str_replace old new xs"
    using ne by (simp add: str_replace.simps [of old new "x # xs"])
  then show ?case using Cons by simp
qed

lemma str_replace_root_usr: "str_replace (root @ ''/'') '''' (root @ ''/usr'') = ''usr''"
proof -
  have sw: "startswith (root @ ''/usr'') (root @ ''/'')" by (simp add: startswith_def)
  have "str_replace (root @ ''/'') '''' (root @ ''/usr'')
      = str_replace (root @ ''/'') '''' (drop (length (root @ ''/'')) (root @ ''/usr''))"
    using sw by (simp add: str_replace.simps [of "root @ ''/''" "''''" "root @ ''/usr''"])
  also have "drop (length (root @ ''/'')) (root @ ''/usr'') = ''usr''" by simp
  also have "str_replace (root @ ''/'') '''' ''usr'' = ''usr''"
    by (rule str_replace_absent [of "CHR ''/''"]) simp_all
  finally show ?thesis .
qed

text \<open>
Where the layout keeps inside its root. In flat mode each of the nine destination
directories lies inside the root, and so does the bundle library directory (\<^verbatim>\<open>lib\<close>,
relative to the root) once joined to the root. In FHS-like mode each of the nine
directories, \<^verbatim>\<open>LIB_DIR\<close> among them, lies inside \<^verbatim>\<open>root/usr\<close>. The property
\<^verbatim>\<open>bundle_library_directory\<close> answers \<^verbatim>\<open>usr/lib\<close> only for the prefix \<^verbatim>\<open>root/usr\<close>.
\<close>

lemma fixed_directories_layout:
  "(\<forall>d \<in> set (destination_dirs (AppDirPaths root False prefix)). lies_inside root d)
   \<and> lies_inside root (os_path_join root (bundle_library_directory (AppDirPaths root False prefix)))
   \<and> (\<forall>d \<in> set (destination_dirs (AppDirPaths root True prefix)).
         lies_inside (os_path_join root ''usr'') d)
   \<and> LIB_DIR (AppDirPaths root True prefix) = os_path_join (os_path_join root ''usr'') ''lib''
   \<and> (prefix = root @ ''/usr'' \<longrightarrow>
         bundle_library_directory (AppDirPaths root True prefix) = ''usr/lib'')"
proof (intro conjI impI)
  show "\<forall>d \<in> set (destination_dirs (AppDirPaths root False prefix)). lies_inside root d"
    by (rule flat_dirs_inside)
  show "lies_inside root (os_path_join root (bundle_library_directory (AppDirPaths root False prefix)))"
  proof -
    have "bundle_library_directory (AppDirPaths root False prefix) = ''lib''"
      by (simp add: bundle_library_directory_def AppDirPaths_def)
    moreover have "lies_inside root (os_path_join root ''lib'')"
      by (rule inside_join) (simp_all add: startswith_def)
    ultimately show ?thesis by simp
  qed
  show "\<forall>d \<in> set (destination_dirs (AppDirPaths root True prefix)).
         lies_inside (os_path_join root ''usr'') d"
    by (rule fhs_dirs_under_usr)
  show "LIB_DIR (AppDirPaths root True prefix) = os_path_join (os_path_join root ''usr'') ''lib''"
    by (simp add: AppDirPaths_def os_path_join3_def)
next
  assume "prefix = root @ ''/usr''"
  then show "bundle_library_directory (AppDirPaths root True prefix) = ''usr/lib''"
    by (simp add: bundle_library_directory_def AppDirPaths_def str_replace_root_usr
        os_path_join_def startswith_def endswith_def)
qed

text \<open>
Claim C9. In flat mode every destination directory lies inside the root, and in FHS-like
mode the library destination directories are nested under \<^verbatim>\<open>usr\<close> of the root. The nine
fixed directories do so on every input, as shown above. The property
\<^verbatim>\<open>bundle_library_directory\<close> does not: it is documented as the bundle library directory
relative to the AppDir, but in FHS-like mode it is computed from \<^verbatim>\<open>fhs_prefix\<close>. For the
default prefix it is \<^verbatim>\<open>lib\<close> while \<^verbatim>\<open>LIB_DIR\<close> of the same layout is under \<^verbatim>\<open>usr\<close>; for the
prefixes the deployer passes (the target directory itself, or the prefix of the source
binary) it is an absolute path, \<^verbatim>\<open>/tmp/AppDir/lib\<close> or \<^verbatim>\<open>/opt/app/lib\<close>, the second outside
the root. Only the prefix \<^verbatim>\<open>root/usr\<close> gives \<^verbatim>\<open>usr/lib\<close>.
\<close>

theorem bundle_library_directory_leaves_usr:
  "LIB_DIR (AppDirPaths ''/tmp/AppDir'' True '''') = ''/tmp/AppDir/usr/lib''
   \<and> bundle_library_directory (AppDirPaths ''/tmp/AppDir'' True '''') = ''lib''
   \<and> \<not> lies_inside (os_path_join ''/tmp/AppDir'' ''usr'')
         (os_path_join ''/tmp/AppDir'' (bundle_library_directory (AppDirPaths ''/tmp/AppDir'' True '''')))
   \<and> bundle_library_directory (AppDirPaths ''/tmp/AppDir'' True ''/tmp/AppDir'') = ''/tmp/AppDir/lib''
   \<and> bundle_library_directory (AppDirPaths ''/tmp/AppDir'' True ''/opt/app'') = ''/opt/app/lib''
   \<and> \<not> lies_inside ''/tmp/AppDir''
         (os_path_join ''/tmp/AppDir'' (bundle_library_directory (AppDirPaths ''/tmp/AppDir'' True ''/opt/app'')))
   \<and> bundle_library_directory (AppDirPaths ''/tmp/AppDir'' True ''/tmp/AppDir/usr'') = ''usr/lib''"
  by code_simp

section \<open>Properties of the RPATH entries\<close>

lemma set_unique_parts: "set (unique_parts acc parts) = set acc \<union> set parts"
  by (induction parts arbitrary: acc) auto

lemma distinct_unique_parts: "distinct acc \<Longrightarrow> distinct (unique_parts acc parts)"
  by (induction parts arbitrary: acc) auto

lemma origin_not_abs: "startswith e ''$ORIGIN'' \<Longrightarrow> \<not> os_path_isabs e"
  by (cases e) (auto simp: startswith_def os_path_isabs_def)

lemma rpath_parts_origin: "e \<in> set (rpath_parts bin_path fhs_like rel) \<Longrightarrow> startswith e ''$ORIGIN''"
  by (cases rel) (auto simp: rpath_parts_def Let_def startswith_def split: if_splits)

text \<open>
Claim C5. Whatever the path of the binary, the layout mode and the relative path to the
library directory, every entry of the RPATH list starts with \<^verbatim>\<open>$ORIGIN\<close> and none is
an absolute path; the list has no duplicates, holds exactly the entries that were built,
and \<^verbatim>\<open>$ORIGIN\<close> itself is among them. No entry is filtered out on the way.
\<close>

theorem rpath_entries_relative:
  "(\<forall>e \<in> set (unique_rpath_parts bin_path fhs_like rel).
       startswith e ''$ORIGIN'' \<and> \<not> os_path_isabs e)
   \<and> distinct (unique_rpath_parts bin_path fhs_like rel)
   \<and> set (unique_rpath_parts bin_path fhs_like rel) = set (rpath_parts bin_path fhs_like rel)
   \<and> ''$ORIGIN'' \<in> set (unique_rpath_parts bin_path fhs_like rel)"
proof -
  have s: "set (unique_rpath_parts bin_path fhs_like rel) = set (rpath_parts bin_path fhs_like rel)"
    by (simp add: unique_rpath_parts_def set_unique_parts)
  have d: "distinct (unique_rpath_parts bin_path fhs_like rel)"
    by (simp add: unique_rpath_parts_def distinct_unique_parts)
  have o: "''$ORIGIN'' \<in> set (rpath_parts bin_path fhs_like rel)"
    by (simp add: rpath_parts_def Let_def)
  show ?thesis using s d o rpath_parts_origin origin_not_abs by blast
qed

theorem rpath_entries_relative_witness:
  "unique_rpath_parts ''/tmp/AppDir/plugins/platforms/libqxcb.so'' True (Some ''../../lib'')
     = [''$ORIGIN'', ''$ORIGIN/../../lib'', ''$ORIGIN/../../../lib'', ''$ORIGIN/../usr/lib'']
   \<and> \<not> os_path_isabs ''$ORIGIN/../usr/lib''"
proof -
  have a: "unique_rpath_parts ''/tmp/AppDir/plugins/platforms/libqxcb.so'' True (Some ''../../lib'')
     = [''$ORIGIN'', ''$ORIGIN/../../lib'', ''$ORIGIN/../../../lib'', ''$ORIGIN/../usr/lib'']"
    by (simp add: unique_rpath_parts_def rpath_parts_def startswith_def)
  then have "''$ORIGIN/../usr/lib''
      \<in> set (unique_rpath_parts ''/tmp/AppDir/plugins/platforms/libqxcb.so'' True (Some ''../../lib''))"
    by simp
  then show ?thesis
    using rpath_entries_relative [of "''/tmp/AppDir/plugins/platforms/libqxcb.so''" True "Some ''../../lib''"] a
    by blast
qed

section \<open>Properties of the final RPATH audit\<close>

lemma check_rpaths_result:
  "check_rpaths env fs (p, lg) =
     (p @ filter (flagged_rpath env) fs, lg @ map (warned env) (filter (flagged_rpath env) fs))"
proof (induction fs arbitrary: p lg)
  case Nil
  show ?case by simp
next
  case (Cons f fs)
  show ?case
  proof (cases "print_rpath env f")
    case None
    then show ?thesis by (simp add: Cons.IH flagged_rpath_def)
  next
    case (Some res)
    obtain rc out where res: "res = (rc, out)" by (cases res)
    show ?thesis
      using Some res by (simp add: Cons.IH flagged_rpath_def warned_def Let_def)
  qed
qed

lemma recheck_rpaths_log: "set lg \<subseteq> set (snd (recheck_rpaths env fs (n, lg)))"
proof (induction fs arbitrary: n lg)
  case Nil
  show ?case by simp
next
  case (Cons f fs)
  show ?case
  proof (cases "print_rpath env f")
    case None
    then show ?thesis using Cons.IH by simp
  next
    case (Some res)
    obtain rc out where res: "res = (rc, out)" by (cases res)
    have "set lg \<subseteq> set (lg @ [Warn_still_problematic f (strip out)])" by auto
    then show ?thesis
      using Some res Cons.IH [of lg n] Cons.IH [of "lg @ [Warn_still_problematic f (strip out)]" "n + 1"]
      by (auto simp del: recheck_rpaths.simps simp add: recheck_rpaths.simps(2) [of env f fs n lg])
  qed
qed

lemma final_fixes_calls:
  "set_rpath_calls (apply_final_binary_fixes env b st) =
     set_rpath_calls st @ (if path_exists env b then [(''$ORIGIN:$ORIGIN/lib:$ORIGIN/../lib'', b)] else [])"
  by (simp add: apply_final_binary_fixes_def Let_def)

lemma final_fixes_log:
  "set (audit_logged st) \<subseteq> set (audit_logged (apply_final_binary_fixes env b st))"
  by (auto simp: apply_final_binary_fixes_def Let_def)

lemma problematic_files_eq:
  "problematic_files env files = filter (flagged_rpath env) (elf_files files)"
  by (simp add: problematic_files_def check_rpaths_result)

lemma verify_unfold:
  assumes "appdir env = Some paths"
  shows "verify_and_fix_rpaths env target_dir files =
     (True,
      (let st1 = apply_final_binary_fixes env
                   (os_path_join target_dir (os_path_basename (app_binary_path env)))
                   \<lparr>set_rpath_calls = [], chmod_calls = [],
                    audit_logged = audit_log_after_checks env files\<rparr>;
           bin_path = os_path_join (BIN_DIR paths) (os_path_basename (app_binary_path env))
       in if deployer_fhs_like_mode env \<and> path_exists env bin_path
          then apply_final_binary_fixes env bin_path st1 else st1))"
  using assms
  by (simp add: verify_and_fix_rpaths_def audit_log_after_checks_def Let_def split: prod.splits)

lemma checks_log_warned:
  "set (map (warned env) (problematic_files env files)) \<subseteq> set (audit_log_after_checks env files)"
proof -
  let ?p = "filter (flagged_rpath env) (elf_files files)"
  let ?lg1 = "map (warned env) ?p"
  have c: "check_rpaths env (elf_files files) ([], []) = (?p, ?lg1)"
    by (simp add: check_rpaths_result)
  show ?thesis
  proof (cases "?p = []")
    case True
    then show ?thesis by (simp add: problematic_files_eq)
  next
    case False
    obtain n lg where r: "recheck_rpaths env ?p (0, ?lg1 @ [Warn_found_problematic (length ?p)]) = (n, lg)"
      by (cases "recheck_rpaths env ?p (0, ?lg1 @ [Warn_found_problematic (length ?p)])")
    have "set (?lg1 @ [Warn_found_problematic (length ?p)]) \<subseteq> set lg"
      using recheck_rpaths_log [of "?lg1 @ [Warn_found_problematic (length ?p)]" env ?p 0] r by simp
    then have "set ?lg1 \<subseteq> set lg" by simp
    moreover have "audit_log_after_checks env files
        = (if n > 0 then lg @ [Warn_still_count n] else lg @ [Success_all_fixed])"
      unfolding audit_log_after_checks_def c using False r by simp
    ultimately show ?thesis by (auto simp: problematic_files_eq)
  qed
qed

lemma verify_log:
  assumes "appdir env = Some paths"
  shows "set (audit_log_after_checks env files)
     \<subseteq> set (audit_logged (snd (verify_and_fix_rpaths env target_dir files)))"
proof -
  let ?st0 = "\<lparr>set_rpath_calls = [], chmod_calls = [],
                audit_logged = audit_log_after_checks env files\<rparr>"
  let ?st1 = "apply_final_binary_fixes env
                (os_path_join target_dir (os_path_basename (app_binary_path env))) ?st0"
  let ?b2 = "os_path_join (BIN_DIR paths) (os_path_basename (app_binary_path env))"
  have 1: "set (audit_log_after_checks env files) \<subseteq> set (audit_logged ?st1)"
    using final_fixes_log [of ?st0 env] by simp
  have 2: "set (audit_logged ?st1) \<subseteq> set (audit_logged (apply_final_binary_fixes env ?b2 ?st1))"
    by (rule final_fixes_log)
  show ?thesis
  proof (cases "deployer_fhs_like_mode env \<and> path_exists env ?b2")
    case True
    then have "snd (verify_and_fix_rpaths env target_dir files) = apply_final_binary_fixes env ?b2 ?st1"
      by (simp add: verify_unfold [OF assms] Let_def)
    then show ?thesis using 1 2 by auto
  next
    case False
    then have "snd (verify_and_fix_rpaths env target_dir files) = ?st1"
      by (auto simp: verify_unfold [OF assms] Let_def)
    then show ?thesis using 1 by simp
  qed
qed

text \<open>
What the audit does on every input. It returns True; it flags exactly the candidate files
(regular files named like a shared object or executable, starting with the ELF magic)
whose printed RPATH is empty or has an entry outside \<^verbatim>\<open>$ORIGIN\<close>; each flagged file has
its warning in the log; and every \<^verbatim>\<open>patchelf --set-rpath\<close> call of the audit is one of the
final fixes of the main executable (in the target directory, or in \<^verbatim>\<open>BIN_DIR\<close>).
\<close>

lemma audit_flags_and_calls:
  assumes "appdir env = Some paths"
  shows "fst (verify_and_fix_rpaths env target_dir files)
   \<and> problematic_files env files = filter (flagged_rpath env) (elf_files files)
   \<and> (\<forall>f \<in> set (problematic_files env files).
         warned env f \<in> set (audit_logged (snd (verify_and_fix_rpaths env target_dir files))))
   \<and> (\<forall>c \<in> set (set_rpath_calls (snd (verify_and_fix_rpaths env target_dir files))).
         snd c = os_path_join target_dir (os_path_basename (app_binary_path env))
         \<or> snd c = os_path_join (BIN_DIR paths) (os_path_basename (app_binary_path env)))"
proof (intro conjI ballI)
  show "fst (verify_and_fix_rpaths env target_dir files)"
    by (simp add: verify_unfold [OF assms])
  show "problematic_files env files = filter (flagged_rpath env) (elf_files files)"
    by (rule problematic_files_eq)
next
  fix f assume "f \<in> set (problematic_files env files)"
  then have "warned env f \<in> set (audit_log_after_checks env files)"
    using checks_log_warned [of env files] by auto
  then show "warned env f \<in> set (audit_logged (snd (verify_and_fix_rpaths env target_dir files)))"
    using verify_log [OF assms] by blast
next
  fix c assume "c \<in> set (set_rpath_calls (snd (verify_and_fix_rpaths env target_dir files)))"
  then show "snd c = os_path_join target_dir (os_path_basename (app_binary_path env))
         \<or> snd c = os_path_join (BIN_DIR paths) (os_path_basename (app_binary_path env))"
    by (auto simp: verify_unfold [OF assms] Let_def final_fixes_calls split: if_splits)
qed

text \<open>
Claim C6. The final audit flags every file whose RPATH has an entry outside \<^verbatim>\<open>$ORIGIN\<close> or
is empty, logs a warning for it, and attempts one repair of each flagged file before the
re-check. The code flags and warns, and attempts no repair: the loop under the comment
\<^verbatim>\<open># Fix problematic files\<close> is \<^verbatim>\<open>pass\<close>. In the first audit the library is flagged,
found still problematic by the re-check and counted; in the second its empty RPATH is
flagged, the re-check (which counts only entries outside \<^verbatim>\<open>$ORIGIN\<close>) counts nothing,
and the audit logs that all RPATH issues were fixed. In both the only
\<^verbatim>\<open>patchelf --set-rpath\<close> call goes to the main executable.
\<close>

theorem audit_repairs_nothing:
  "verify_and_fix_rpaths audit_example_env ''/tmp/AppDir'' audit_example_files =
     (True,
      \<lparr>set_rpath_calls = [(''$ORIGIN:$ORIGIN/lib:$ORIGIN/../lib'', ''/tmp/AppDir/app'')],
       chmod_calls = [''/tmp/AppDir/app''],
       audit_logged =
         [Warn_problematic_rpath ''/tmp/AppDir/lib/libfoo.so'' ''/usr/lib:$ORIGIN'',
          Warn_found_problematic 1,
          Warn_still_problematic ''/tmp/AppDir/lib/libfoo.so'' ''/usr/lib:$ORIGIN'',
          Warn_still_count 1]\<rparr>)
   \<and> verify_and_fix_rpaths audit_empty_env ''/tmp/AppDir'' audit_example_files =
     (True,
      \<lparr>set_rpath_calls = [(''$ORIGIN:$ORIGIN/lib:$ORIGIN/../lib'', ''/tmp/AppDir/app'')],
       chmod_calls = [''/tmp/AppDir/app''],
       audit_logged =
         [Warn_problematic_rpath ''/tmp/AppDir/lib/libfoo.so'' [],
          Warn_found_problematic 1,
          Success_all_fixed]\<rparr>)"
  by code_simp

section \<open>Properties of the dependency collector\<close>

lemma grows_refl: "grows st st"
  by (simp add: grows_def)

lemma grows_trans: "grows a b \<Longrightarrow> grows b c \<Longrightarrow> grows a c"
  by (auto simp: grows_def)

lemma grows_expand:
  "bp \<notin> processed st \<Longrightarrow>
   grows st (st\<lparr>coll := c, processed := insert bp (processed st), ldd_runs := ldd_runs st @ [bp]\<rparr>)"
  by (auto simp: grows_def runs_once_def)

lemma find_never_raises: "\<exists>info self1. find_dependency_info env self path = (Inr info, self1)"
proof -
  obtain r self1 info where t: "find_dependency_info_try env self path = (r, self1, info)"
    by (cases "find_dependency_info_try env self path")
  show ?thesis
  proof (cases r)
    case None
    then show ?thesis using t by (simp add: find_dependency_info_def)
  next
    case (Some e)
    then show ?thesis using t by (cases e) (simp_all add: find_dependency_info_def)
  qed
qed

lemma collect_grows:
  "collect_all_libraries n env ps st = Some (l, st') \<Longrightarrow> grows st st'"
  "collect_paths n env ps libs st = Some (l, st') \<Longrightarrow> grows st st'"
  "collect_deps n env ds libs st = Some (l, st') \<Longrightarrow> grows st st'"
proof (induction n env ps st and n env ps libs st and n env ds libs st
       arbitrary: l st' and l st' and l st'
       rule: collect_all_libraries_collect_paths_collect_deps.induct)
  case (1 env binary_paths st)
  then show ?case by simp
next
  case (2 n env binary_paths st)
  then show ?case by simp
next
  case (3 n env libraries st)
  then show ?case by (simp add: grows_refl)
next
  case (4 n env bp rest libraries st)
  show ?case
  proof (cases "bp \<in> processed st")
    case True
    then show ?thesis using 4 by simp
  next
    case False
    obtain info self1 where f: "find_dependency_info env (coll st) bp = (Inr info, self1)"
      using find_never_raises by blast
    let ?st2 = "st\<lparr>coll := self1, processed := insert bp (processed st), ldd_runs := ldd_runs st @ [bp]\<rparr>"
    have g1: "grows st ?st2" using False by (rule grows_expand)
    obtain l1 st1 where d: "collect_deps n env (dependencies info) libraries ?st2 = Some (l1, st1)"
      and r: "collect_paths n env rest l1 st1 = Some (l, st')"
      using "4.prems" False f by (auto split: option.splits)
    have g2: "grows ?st2 st1" using "4.IH"(3) [OF False f [symmetric] refl d] .
    have g3: "grows st1 st'" using "4.IH"(4) [OF False f [symmetric] refl d refl r] .
    show ?thesis using g1 g2 g3 grows_trans by blast
  qed
next
  case (5 n env libraries st)
  then show ?case by (simp add: grows_refl)
next
  case (6 n env lib_path rest libraries st)
  show ?case
  proof (cases "lib_path \<notin> processed st \<and> os_path_exists env lib_path")
    case True
    obtain sub st1 where a: "collect_all_libraries n env [lib_path] st = Some (sub, st1)"
      and r: "collect_deps n env rest (insert lib_path libraries \<union> sub) st1 = Some (l, st')"
      using "6.prems" True by (auto split: option.splits)
    have g1: "grows st st1" using "6.IH"(1) [OF True a] .
    have g2: "grows st1 st'" using "6.IH"(2) [OF True a refl r] .
    show ?thesis using g1 g2 grows_trans by blast
  next
    case False
    then show ?thesis using 6 by auto
  qed
qed

lemma card_diff_mono:
  assumes "finite V" "A \<subseteq> B"
  shows "card (V - B) \<le> card (V - A)"
  using assms by (intro card_mono) auto

lemma card_diff_insert:
  assumes "finite V" "x \<in> V" "x \<notin> A"
  shows "card (V - insert x A) < card (V - A)"
  using assms by (intro psubset_card_mono) auto

lemma collect_total:
  assumes fin: "finite V"
  shows "set ps \<subseteq> V \<Longrightarrow> card (V - processed st) < n \<Longrightarrow> closed_under_deps env V
      \<Longrightarrow> collect_all_libraries n env ps st \<noteq> None"
    "set ps \<subseteq> V \<Longrightarrow> card (V - processed st) \<le> n \<Longrightarrow> closed_under_deps env V
      \<Longrightarrow> collect_paths n env ps libs st \<noteq> None"
    "set ds \<subseteq> V \<Longrightarrow> card (V - processed st) < n \<Longrightarrow> closed_under_deps env V
      \<Longrightarrow> collect_deps n env ds libs st \<noteq> None"
proof (induction n env ps st and n env ps libs st and n env ds libs st
       rule: collect_all_libraries_collect_paths_collect_deps.induct)
  case (1 env binary_paths st)
  then show ?case by simp
next
  case (2 n env binary_paths st)
  then show ?case by simp
next
  case (3 n env libraries st)
  show ?case by simp
next
  case (4 n env bp rest libraries st)
  have rest: "set rest \<subseteq> V" and bpV: "bp \<in> V" using "4.prems"(1) by auto
  show ?case
  proof (cases "bp \<in> processed st")
    case True
    then show ?thesis using "4.IH"(1) [OF True rest "4.prems"(2,3)] by simp
  next
    case False
    obtain info self1 where f: "find_dependency_info env (coll st) bp = (Inr info, self1)"
      using find_never_raises by blast
    let ?st2 = "st\<lparr>coll := self1, processed := insert bp (processed st), ldd_runs := ldd_runs st @ [bp]\<rparr>"
    have dV: "set (dependencies info) \<subseteq> V" using "4.prems"(3) bpV f
      unfolding closed_under_deps_def by blast
    have "card (V - insert bp (processed st)) < card (V - processed st)"
      using fin bpV False by (rule card_diff_insert)
    then have c2: "card (V - processed ?st2) < n" using "4.prems"(2) by simp
    have "collect_deps n env (dependencies info) libraries ?st2 \<noteq> None"
      using "4.IH"(3) [OF False f [symmetric] refl dV c2 "4.prems"(3)] .
    then obtain l1 st1 where d: "collect_deps n env (dependencies info) libraries ?st2 = Some (l1, st1)"
      by auto
    have "grows ?st2 st1" using d by (rule collect_grows(3))
    then have "processed st \<subseteq> processed st1" by (auto simp: grows_def)
    then have "card (V - processed st1) \<le> card (V - processed st)"
      using fin by (intro card_diff_mono)
    then have c3: "card (V - processed st1) \<le> n" using "4.prems"(2) by simp
    have "collect_paths n env rest l1 st1 \<noteq> None"
      using "4.IH"(4) [OF False f [symmetric] refl d refl rest c3 "4.prems"(3)] .
    then show ?thesis using False f d by simp
  qed
next
  case (5 n env libraries st)
  show ?case by simp
next
  case (6 n env lib_path rest libraries st)
  have rest: "set rest \<subseteq> V" and lV: "lib_path \<in> V" using "6.prems"(1) by auto
  show ?case
  proof (cases "lib_path \<notin> processed st \<and> os_path_exists env lib_path")
    case True
    have "collect_all_libraries n env [lib_path] st \<noteq> None"
      using "6.IH"(1) [OF True _ "6.prems"(2,3)] lV by simp
    then obtain sub st1 where a: "collect_all_libraries n env [lib_path] st = Some (sub, st1)"
      by auto
    have "grows st st1" using a by (rule collect_grows(1))
    then have "processed st \<subseteq> processed st1" by (simp add: grows_def)
    then have "card (V - processed st1) \<le> card (V - processed st)"
      using fin by (intro card_diff_mono)
    then have c: "card (V - processed st1) < n" using "6.prems"(2) by simp
    have "collect_deps n env rest (insert lib_path libraries \<union> sub) st1 \<noteq> None"
      using "6.IH"(2) [OF True a refl rest c "6.prems"(3)] .
    then show ?thesis using True a by simp
  next
    case False
    have "collect_deps n env rest (insert lib_path libraries) st \<noteq> None"
      using "6.IH"(3) [OF False rest "6.prems"(2,3)] .
    then show ?thesis using False by auto
  qed
qed

lemma cycle_find:
  "fst (find_dependency_info cycle_env self ''/A'')
     = Inr \<lparr>install_name = [], binary_path = ''/A'', dependencies = [''/B'']\<rparr>"
  "fst (find_dependency_info cycle_env self ''/B'')
     = Inr \<lparr>install_name = [], binary_path = ''/B'', dependencies = [''/C'']\<rparr>"
  "fst (find_dependency_info cycle_env self ''/C'')
     = Inr \<lparr>install_name = [], binary_path = ''/C'', dependencies = [''/A'']\<rparr>"
  by code_simp+

lemma cycle_closed: "closed_under_deps cycle_env {''/A'', ''/B'', ''/C''}"
proof -
  have "set (dependencies info) \<subseteq> {''/A'', ''/B'', ''/C''}"
    if "find_dependency_info cycle_env self p = (Inr info, self1)" "p \<in> {''/A'', ''/B'', ''/C''}"
    for self p info self1
  proof -
    have "fst (find_dependency_info cycle_env self p) = Inr info" using that(1) by simp
    then show ?thesis using that(2) cycle_find [of self] by auto
  qed
  then show ?thesis unfolding closed_under_deps_def by blast
qed

lemma cycle_result:
  "collect_all_libraries 4 cycle_env [''/A'']
      \<lparr>coll = LddDependencyCollector, processed = {}, ldd_runs = []\<rparr>
    = Some ({''/A'', ''/B'', ''/C''},
            \<lparr>coll = LddDependencyCollector, processed = {''/A'', ''/B'', ''/C''},
             ldd_runs = [''/A'', ''/B'', ''/C'']\<rparr>)"
  by code_simp

lemma collect_fuel_Suc:
  "collect_all_libraries n env ps st = Some r \<Longrightarrow> collect_all_libraries (Suc n) env ps st = Some r"
  "collect_paths n env ps libs st = Some r \<Longrightarrow> collect_paths (Suc n) env ps libs st = Some r"
  "collect_deps n env ds libs st = Some r \<Longrightarrow> collect_deps (Suc n) env ds libs st = Some r"
proof (induction n env ps st and n env ps libs st and n env ds libs st
       arbitrary: r and r and r
       rule: collect_all_libraries_collect_paths_collect_deps.induct)
  case (1 env binary_paths st)
  then show ?case by simp
next
  case (2 n env binary_paths st)
  then show ?case by simp
next
  case (3 n env libraries st)
  then show ?case by simp
next
  case (4 n env bp rest libraries st)
  show ?case
  proof (cases "bp \<in> processed st")
    case True
    then show ?thesis using 4 by simp
  next
    case False
    obtain info self1 where f: "find_dependency_info env (coll st) bp = (Inr info, self1)"
      using find_never_raises by blast
    let ?st2 = "st\<lparr>coll := self1, processed := insert bp (processed st), ldd_runs := ldd_runs st @ [bp]\<rparr>"
    obtain l1 st1 where d: "collect_deps n env (dependencies info) libraries ?st2 = Some (l1, st1)"
      and r: "collect_paths n env rest l1 st1 = Some r"
      using "4.prems" False f by (auto split: option.splits)
    have d': "collect_deps (Suc n) env (dependencies info) libraries ?st2 = Some (l1, st1)"
      using "4.IH"(3) [OF False f [symmetric] refl d] .
    have r': "collect_paths (Suc n) env rest l1 st1 = Some r"
      using "4.IH"(4) [OF False f [symmetric] refl d refl r] .
    show ?thesis using False f d' r' by simp
  qed
next
  case (5 n env libraries st)
  then show ?case by simp
next
  case (6 n env lib_path rest libraries st)
  show ?case
  proof (cases "lib_path \<notin> processed st \<and> os_path_exists env lib_path")
    case True
    obtain sub st1 where a: "collect_all_libraries n env [lib_path] st = Some (sub, st1)"
      and r: "collect_deps n env rest (insert lib_path libraries \<union> sub) st1 = Some r"
      using "6.prems" True by (auto split: option.splits)
    have a': "collect_all_libraries (Suc n) env [lib_path] st = Some (sub, st1)"
      using "6.IH"(1) [OF True a] .
    have r': "collect_deps (Suc n) env rest (insert lib_path libraries \<union> sub) st1 = Some r"
      using "6.IH"(2) [OF True a refl r] .
    show ?thesis using True a' r' by (simp del: collect_all_libraries.simps)
  next
    case False
    then have "collect_deps n env rest (insert lib_path libraries) st = Some r"
      using "6.prems" by auto
    then have "collect_deps (Suc n) env rest (insert lib_path libraries) st = Some r"
      using "6.IH"(3) [OF False] by blast
    then show ?thesis using False by auto
  qed
qed

lemma collect_fuel_more:
  "collect_all_libraries n env ps st = Some r \<Longrightarrow> collect_all_libraries (n + k) env ps st = Some r"
  by (induction k) (simp_all add: collect_fuel_Suc(1) del: collect_all_libraries.simps)

text \<open>
Claim C2. On a finite dependency graph, with more fuel than there are binaries not yet
processed, the collection returns, and returns the same with any more fuel; no binary
is handed to \<^verbatim>\<open>ldd\<close> twice, each one expanded is in \<^verbatim>\<open>processed\<close>, and \<^verbatim>\<open>processed\<close> only
grows. On the cycle of three binaries the collection from the first one returns exactly
the three paths, after one \<^verbatim>\<open>ldd\<close> run on each.
\<close>

theorem collection_terminates:
  assumes "finite V" "closed_under_deps env V" "set binary_paths \<subseteq> V"
    and "card (V - processed st) < fuel" "runs_once st"
  shows "(\<exists>libs st'. (\<forall>k. collect_all_libraries (fuel + k) env binary_paths st = Some (libs, st'))
            \<and> distinct (ldd_runs st') \<and> set (ldd_runs st') \<subseteq> processed st'
            \<and> processed st \<subseteq> processed st')
     \<and> collect_all_libraries 4 cycle_env [''/A'']
          \<lparr>coll = LddDependencyCollector, processed = {}, ldd_runs = []\<rparr>
        = Some ({''/A'', ''/B'', ''/C''},
                \<lparr>coll = LddDependencyCollector, processed = {''/A'', ''/B'', ''/C''},
                 ldd_runs = [''/A'', ''/B'', ''/C'']\<rparr>)"
proof
  have "collect_all_libraries fuel env binary_paths st \<noteq> None"
    using collect_total(1) [OF assms(1,3,4,2)] .
  then obtain libs st' where r: "collect_all_libraries fuel env binary_paths st = Some (libs, st')"
    by auto
  have g: "grows st st'" using r by (rule collect_grows(1))
  then have "runs_once st'" using assms(5) by (simp add: grows_def)
  then have "distinct (ldd_runs st') \<and> set (ldd_runs st') \<subseteq> processed st'"
    by (simp add: runs_once_def)
  moreover have "processed st \<subseteq> processed st'" using g by (simp add: grows_def)
  moreover have "\<forall>k. collect_all_libraries (fuel + k) env binary_paths st = Some (libs, st')"
    using r collect_fuel_more by blast
  ultimately show "\<exists>libs st'. (\<forall>k. collect_all_libraries (fuel + k) env binary_paths st = Some (libs, st'))
            \<and> distinct (ldd_runs st') \<and> set (ldd_runs st') \<subseteq> processed st'
            \<and> processed st \<subseteq> processed st'"
    by blast
next
  show "collect_all_libraries 4 cycle_env [''/A'']
          \<lparr>coll = LddDependencyCollector, processed = {}, ldd_runs = []\<rparr>
        = Some ({''/A'', ''/B'', ''/C''},
                \<lparr>coll = LddDependencyCollector, processed = {''/A'', ''/B'', ''/C''},
                 ldd_runs = [''/A'', ''/B'', ''/C'']\<rparr>)"
    by (rule cycle_result)
qed

theorem collection_terminates_witness:
  "\<exists>libs st'. (\<forall>k. collect_all_libraries (4 + k) cycle_env [''/A'']
                     \<lparr>coll = LddDependencyCollector, processed = {}, ldd_runs = []\<rparr> = Some (libs, st'))
      \<and> distinct (ldd_runs st') \<and> set (ldd_runs st') \<subseteq> processed st'"
proof -
  have f: "finite {''/A'', ''/B'', ''/C''}" by simp
  have p: "set [''/A''] \<subseteq> {''/A'', ''/B'', ''/C''}" by simp
  have c: "card ({''/A'', ''/B'', ''/C''}
      - processed \<lparr>coll = LddDependencyCollector, processed = {}, ldd_runs = []\<rparr>) < 4"
    by simp
  have r: "runs_once \<lparr>coll = LddDependencyCollector, processed = {}, ldd_runs = []\<rparr>"
    by (simp add: runs_once_def)
  show ?thesis
    using collection_terminates [OF f cycle_closed p c r] by blast
qed

lemma missing_try:
  "fst (find_dependency_info_try missing_env (LddDependencyCollector\<lparr>qt_detection_complete := True\<rparr>) ''/app'')
     = Some (RuntimeError ''Library not found: libfoo.so.1 => not found'')"
  by code_simp

lemma missing_find:
  "fst (find_dependency_info missing_env (LddDependencyCollector\<lparr>qt_detection_complete := True\<rparr>) ''/app'')
     = Inr \<lparr>install_name = [], binary_path = ''/app'', dependencies = [''/lib/libc.so.6'']\<rparr>"
  by code_simp

text \<open>
Claim C4 does not hold of the code. \<^verbatim>\<open>_find_dependency_info\<close> never raises: whatever the
\<^verbatim>\<open>try\<close> block raises, its own handler returns \<^verbatim>\<open>ldd_info\<close>. With detection complete and a
line \<^verbatim>\<open>not found\<close>, the RuntimeError is raised inside the \<^verbatim>\<open>try\<close> block and the caller
gets the dependencies read before that line. A new collector has detection incomplete,
and no code of the repository sets it on the collector.
\<close>

theorem not_found_error_is_swallowed:
  "(\<exists>info self1. find_dependency_info env self path = (Inr info, self1))
   \<and> fst (find_dependency_info_try missing_env
            (LddDependencyCollector\<lparr>qt_detection_complete := True\<rparr>) ''/app'')
       = Some (RuntimeError ''Library not found: libfoo.so.1 => not found'')
   \<and> fst (find_dependency_info missing_env
            (LddDependencyCollector\<lparr>qt_detection_complete := True\<rparr>) ''/app'')
       = Inr \<lparr>install_name = [], binary_path = ''/app'', dependencies = [''/lib/libc.so.6'']\<rparr>
   \<and> qt_detection_complete LddDependencyCollector = False"
  using find_never_raises missing_try missing_find
  by (simp add: LddDependencyCollector_def)

end
